theory Spec2Isabelle
  imports Main "HOL-Library.Sublist" "HOL-Library.Multiset"
begin

section \<open>The editor panel of the companion web client\<close>

text \<open>
  A shallow embedding of \<^verbatim>\<open>web/src/components/EditorPanel.tsx\<close>. JavaScript strings are
  modelled as \<^typ>\<open>string\<close> (a list of code units); the only string operations the
  component uses (\<^verbatim>\<open>startsWith\<close>, \<^verbatim>\<open>slice\<close>, \<^verbatim>\<open>split\<close>, equality) work on code units.
\<close>

subsection \<open>Tree nodes and the change indicator\<close>

text \<open>
  Modelled from the spec: the type \<^verbatim>\<open>TreeNode\<close>, which \<^verbatim>\<open>api.ts\<close> declares: a name, an absolute
  path, a type that is file or directory, and an ordered sequence of children. The
  component reads \<^verbatim>\<open>name\<close>, \<^verbatim>\<open>path\<close>, \<^verbatim>\<open>type\<close> (compared with \<^verbatim>\<open>"directory"\<close>) and
  \<^verbatim>\<open>children\<close>, which it treats as optional on every node.
\<close>

datatype NodeType = File | Directory

datatype TreeNode =
  TreeNode (name: string) (path: string) (node_type: NodeType) (children: "TreeNode list option")

text \<open>
  \<^verbatim>\<open>hasChangedDescendant(node, changedFiles)\<close>: \<^verbatim>\<open>Set.has\<close> is membership, \<^verbatim>\<open>Array.some\<close> is
  \<^const>\<open>list_ex\<close>; an absent \<^verbatim>\<open>children\<close> is \<^const>\<open>None\<close>, and an empty array is truthy.
\<close>

fun hasChangedDescendant :: "TreeNode \<Rightarrow> string set \<Rightarrow> bool" where
  "hasChangedDescendant (TreeNode n p t cs) changedFiles =
     (if p \<in> changedFiles then True
      else (case cs of
              Some kids \<Rightarrow> list_ex (\<lambda>child. hasChangedDescendant child changedFiles) kids
            | None \<Rightarrow> False))"

text \<open>The flags \<^verbatim>\<open>FileTreeNode\<close> computes for one node, and the dot it shows.\<close>

definition isDir :: "TreeNode \<Rightarrow> bool" where
  "isDir node = (node_type node = Directory)"

definition isChanged :: "TreeNode \<Rightarrow> string set \<Rightarrow> bool" where
  "isChanged node changedFiles = (\<not> isDir node \<and> path node \<in> changedFiles)"

definition hasChanged :: "TreeNode \<Rightarrow> string set \<Rightarrow> bool" where
  "hasChanged node changedFiles = (isDir node \<and> hasChangedDescendant node changedFiles)"

definition changedDot :: "TreeNode \<Rightarrow> string set \<Rightarrow> bool" where
  "changedDot node changedFiles = (isChanged node changedFiles \<or> hasChanged node changedFiles)"

text \<open>The nodes of a subtree (the node itself first), and its proper descendants.\<close>

fun subtree :: "TreeNode \<Rightarrow> TreeNode list" where
  "subtree (TreeNode n p t cs) =
     TreeNode n p t cs # (case cs of Some kids \<Rightarrow> concat (map subtree kids) | None \<Rightarrow> [])"

definition descendants :: "TreeNode \<Rightarrow> TreeNode list" where
  "descendants node = tl (subtree node)"

subsection \<open>The diff view\<close>

text \<open>\<^verbatim>\<open>diff.split("\n")\<close>: the pieces between line feeds, in order; never an empty list.\<close>

definition LF :: char where
  "LF = CHR 0x0A"

fun split_lines :: "string \<Rightarrow> string list" where
  "split_lines [] = [[]]"
| "split_lines (c # cs) =
     (let rest = split_lines cs
      in if c = LF then [] # rest else (c # hd rest) # tl rest)"

text \<open>The inverse, \<^verbatim>\<open>lines.join("\n")\<close>.\<close>

fun join_lines :: "string list \<Rightarrow> string" where
  "join_lines [] = []"
| "join_lines [l] = l"
| "join_lines (l # m # ls) = l @ LF # join_lines (m # ls)"

definition startsWith :: "string \<Rightarrow> string \<Rightarrow> bool" where
  "startsWith s p = prefix p s"

text \<open>
  The five classes a line can get. \<^verbatim>\<open>cls\<close> starts as the context class and the
  \<^verbatim>\<open>if\<close>/\<^verbatim>\<open>else if\<close> chain overwrites it.
\<close>

datatype LineCategory = Addition | Deletion | HunkHeader | Metadata | ContextLine

fun className :: "LineCategory \<Rightarrow> string" where
  "className Addition = ''bg-cc-success/10 text-cc-success''"
| "className Deletion = ''bg-cc-error/10 text-cc-error''"
| "className HunkHeader = ''text-cc-primary''"
| "className Metadata = ''text-cc-muted''"
| "className ContextLine = ''text-cc-fg/60''"

definition lineCategory :: "string \<Rightarrow> LineCategory" where
  "lineCategory line =
     (if startsWith line ''+'' \<and> \<not> startsWith line ''+++'' then Addition
      else if startsWith line ''-'' \<and> \<not> startsWith line ''---'' then Deletion
      else if startsWith line ''@@'' then HunkHeader
      else if startsWith line ''diff'' \<or> startsWith line ''index'' then Metadata
      else ContextLine)"

text \<open>One rendered row: its category (hence its class) and its text, a non-breaking space for
  an empty line.\<close>

definition NBSP :: string where
  "NBSP = [CHR 0xA0]"

record DiffRow =
  category :: LineCategory
  text_of :: string

definition renderLine :: "string \<Rightarrow> DiffRow" where
  "renderLine line = \<lparr>category = lineCategory line, text_of = (if line = [] then NBSP else line)\<rparr>"

datatype DiffRender = NoChanges | DiffLines "DiffRow list"

definition DiffView :: "string \<Rightarrow> DiffRender" where
  "DiffView diff =
     (if diff = [] then NoChanges
      else DiffLines (map renderLine (split_lines diff)))"

subsection \<open>The list of changed files in the sidebar\<close>

text \<open>
  \<^verbatim>\<open>Array.prototype.sort\<close> with a comparator is a stable sort; an insertion sort that puts
  an element before the first one it does not follow gives its result. The comparator
  (\<^verbatim>\<open>String.prototype.localeCompare\<close> in the component) is a parameter.
\<close>

fun insert_by :: "('a \<Rightarrow> 'a \<Rightarrow> int) \<Rightarrow> 'a \<Rightarrow> 'a list \<Rightarrow> 'a list" where
  "insert_by cmp x [] = [x]"
| "insert_by cmp x (y # ys) = (if cmp x y \<le> 0 then x # y # ys else y # insert_by cmp x ys)"

definition sort_by :: "('a \<Rightarrow> 'a \<Rightarrow> int) \<Rightarrow> 'a list \<Rightarrow> 'a list" where
  "sort_by cmp xs = foldr (insert_by cmp) xs []"

record ChangedEntry =
  abs_path :: string
  rel :: string

text \<open>JavaScript truthiness of \<^verbatim>\<open>string | null | undefined\<close>.\<close>

fun truthy :: "string option \<Rightarrow> bool" where
  "truthy None = False"
| "truthy (Some s) = (s \<noteq> [])"

definition relEntry :: "string \<Rightarrow> string \<Rightarrow> ChangedEntry" where
  "relEntry cwd fp =
     \<lparr>abs_path = fp,
      rel = (if startsWith fp (cwd @ ''/'') then drop (length cwd + 1) fp else fp)\<rparr>"

text \<open>The changed set is a JavaScript \<^verbatim>\<open>Set\<close>: its elements in insertion order.\<close>

definition relativeChangedFiles ::
  "(string \<Rightarrow> string \<Rightarrow> int) \<Rightarrow> string list \<Rightarrow> string option \<Rightarrow> ChangedEntry list" where
  "relativeChangedFiles localeCompare changedFiles cwd =
     (if changedFiles = [] \<or> \<not> truthy cwd then []
      else (case cwd of
              Some w \<Rightarrow> sort_by (\<lambda>a b. localeCompare (rel a) (rel b)) (map (relEntry w) changedFiles)
            | None \<Rightarrow> []))"

text \<open>
  Lexicographic comparison by code units: the order that "sorted lexicographically" names.
  The component does not call it; it is here to compare the component's order with.
\<close>

fun codeUnitCompare :: "string \<Rightarrow> string \<Rightarrow> int" where
  "codeUnitCompare [] [] = 0"
| "codeUnitCompare [] (y # ys) = - 1"
| "codeUnitCompare (x # xs) [] = 1"
| "codeUnitCompare (x # xs) (y # ys) =
     (if (of_char x :: nat) < of_char y then - 1
      else if (of_char y :: nat) < of_char x then 1
      else codeUnitCompare xs ys)"

text \<open>
  \<^verbatim>\<open>String.prototype.localeCompare\<close> is a function of the platform, not of the repository; the
  theorems take the comparator as a parameter. Where a concrete one is needed, \<open>collate\<close>
  orders as the platform's default collation does on file names that differ in their
  letters: first by the letters with their case ignored, then, between names equal up to
  case, lower case before upper case (\<^verbatim>\<open>a.ts\<close>, \<^verbatim>\<open>b.ts\<close>, \<^verbatim>\<open>B.ts\<close>).
\<close>

definition toLowerCase :: "char \<Rightarrow> char" where
  "toLowerCase c =
     (if (65::nat) \<le> of_char c \<and> of_char c \<le> (90::nat) then char_of (of_char c + (32::nat)) else c)"

definition collate :: "string \<Rightarrow> string \<Rightarrow> int" where
  "collate a b =
     (let primary = codeUnitCompare (map toLowerCase a) (map toLowerCase b)
      in if primary \<noteq> 0 then primary else codeUnitCompare b a)"

subsection \<open>The panel: state, timers and requests in flight\<close>

text \<open>
  The component's state (\<^verbatim>\<open>useState\<close>, \<^verbatim>\<open>useRef\<close>), the slices of the store it reads, and
  the part of the runtime its callbacks live in: a clock in milliseconds, the timers that
  \<^verbatim>\<open>setTimeout\<close> has armed, the promises of the repository service that have not settled,
  and the calls made to the service so far. A callback carries what its closure captured.
\<close>

datatype SaveStatus = Saved | Saving | Dirty

datatype TimerCallback = SaveCallback "string option" string | ClearSavedCallback

record Timer =
  handle :: nat
  due :: nat
  callback :: TimerCallback

datatype Request =
    GetFileTree "string option"
  | ReadFile "string option"
  | WriteFile "string option" string
  | GetFileDiff "string option"

record Panel =
  cwd :: "string option"
  openFilePath :: "string option"
  changedFiles :: "string list"
  tree :: "TreeNode list"
  treeLoading :: bool
  fileContent :: string
  savedContent :: string
  fileLoading :: bool
  saveTimerRef :: "nat option"
  saveStatus :: "SaveStatus option"
  diffMode :: bool
  diffContent :: string
  diffLoading :: bool
  now :: nat
  nextHandle :: nat
  timers :: "Timer list"
  nextRequest :: nat
  pending :: "(nat \<times> Request) list"
  calls :: "Request list"

text \<open>
  \<^verbatim>\<open>setTimeout\<close> returns the handle \<^term>\<open>nextHandle s\<close>. Handles are positive numbers, so the
  test \<^verbatim>\<open>if (saveTimerRef.current)\<close> is the test for a handle being there. \<^verbatim>\<open>clearTimeout\<close>
  of a handle that has fired or was cleared does nothing.
\<close>

definition setTimeout :: "TimerCallback \<Rightarrow> nat \<Rightarrow> Panel \<Rightarrow> Panel" where
  "setTimeout cb delay s =
     s\<lparr>timers := timers s @ [\<lparr>handle = nextHandle s, due = now s + delay, callback = cb\<rparr>],
       nextHandle := Suc (nextHandle s)\<rparr>"

definition clearTimeout :: "nat \<Rightarrow> Panel \<Rightarrow> Panel" where
  "clearTimeout h s = s\<lparr>timers := filter (\<lambda>t. handle t \<noteq> h) (timers s)\<rparr>"

text \<open>A call to the repository service: logged, and in flight until it settles.\<close>

definition call :: "Request \<Rightarrow> Panel \<Rightarrow> Panel" where
  "call r s =
     s\<lparr>pending := pending s @ [(nextRequest s, r)],
       nextRequest := Suc (nextRequest s),
       calls := calls s @ [r]\<rparr>"

definition settle :: "nat \<Rightarrow> Panel \<Rightarrow> Panel" where
  "settle i s = s\<lparr>pending := filter (\<lambda>q. fst q \<noteq> i) (pending s)\<rparr>"

definition has :: "string list \<Rightarrow> string option \<Rightarrow> bool" where
  "has files p = (case p of Some x \<Rightarrow> x \<in> set files | None \<Rightarrow> False)"

definition isDirty :: "Panel \<Rightarrow> bool" where
  "isDirty s = (fileContent s \<noteq> savedContent s \<and> openFilePath s \<noteq> None)"

subsection \<open>Effects\<close>

definition loadTreeEffect :: "Panel \<Rightarrow> Panel" where
  "loadTreeEffect s =
     (if \<not> truthy (cwd s) then s
      else call (GetFileTree (cwd s)) (s\<lparr>treeLoading := True\<rparr>))"

definition loadFileEffect :: "Panel \<Rightarrow> Panel" where
  "loadFileEffect s =
     (if \<not> truthy (openFilePath s) then s
      else call (ReadFile (openFilePath s)) (s\<lparr>fileLoading := True, saveStatus := None\<rparr>))"

definition fetchDiffEffect :: "Panel \<Rightarrow> Panel" where
  "fetchDiffEffect s =
     (if \<not> diffMode s \<or> \<not> truthy (openFilePath s) \<or> \<not> has (changedFiles s) (openFilePath s) then s
      else call (GetFileDiff (openFilePath s)) (s\<lparr>diffLoading := True\<rparr>))"

text \<open>\<^verbatim>\<open>setDiffMode\<close>: a new value re-renders, and the diff effect depends on \<^verbatim>\<open>diffMode\<close>.\<close>

definition setDiffMode :: "bool \<Rightarrow> Panel \<Rightarrow> Panel" where
  "setDiffMode b s = (if diffMode s = b then s else fetchDiffEffect (s\<lparr>diffMode := b\<rparr>))"

text \<open>
  The store's open file changes. The effects that depend on \<^verbatim>\<open>openFilePath\<close> run in the
  order they are declared: the file load, the reset of the diff mode (a state update that
  takes effect with the next render) and the diff fetch, which still sees the
  \<^verbatim>\<open>diffMode\<close> of this render.
\<close>

definition openFileChanged :: "string option \<Rightarrow> Panel \<Rightarrow> Panel" where
  "openFileChanged p s =
     (if p = openFilePath s then s
      else setDiffMode False (fetchDiffEffect (loadFileEffect (s\<lparr>openFilePath := p\<rparr>))))"

definition changedFilesChanged :: "string list \<Rightarrow> Panel \<Rightarrow> Panel" where
  "changedFilesChanged files s = fetchDiffEffect (s\<lparr>changedFiles := files\<rparr>)"

definition cwdChanged :: "string option \<Rightarrow> Panel \<Rightarrow> Panel" where
  "cwdChanged c s = (if c = cwd s then s else loadTreeEffect (s\<lparr>cwd := c\<rparr>))"

text \<open>
  Modelled from the spec: the store's \<^verbatim>\<open>setEditorOpenFile\<close>, which \<^verbatim>\<open>store.ts\<close> defines: the
  selected path becomes the session's open file, and the panel observes the change.
  \<^verbatim>\<open>handleFileSelect\<close> calls it with the path.
\<close>

definition handleFileSelect :: "string \<Rightarrow> Panel \<Rightarrow> Panel" where
  "handleFileSelect p s = openFileChanged (Some p) s"

text \<open>The first render and its effects.\<close>

definition initial :: "string option \<Rightarrow> string option \<Rightarrow> string list \<Rightarrow> Panel" where
  "initial c p files =
     \<lparr>cwd = c, openFilePath = p, changedFiles = files, tree = [], treeLoading = False,
      fileContent = [], savedContent = [], fileLoading = False, saveTimerRef = None,
      saveStatus = None, diffMode = False, diffContent = [], diffLoading = False,
      now = 0, nextHandle = 1, timers = [], nextRequest = 1, pending = [], calls = []\<rparr>"

definition mount :: "string option \<Rightarrow> string option \<Rightarrow> string list \<Rightarrow> Panel" where
  "mount c p files = fetchDiffEffect (loadFileEffect (loadTreeEffect (initial c p files)))"

definition unmount :: "Panel \<Rightarrow> Panel" where
  "unmount s = (case saveTimerRef s of Some h \<Rightarrow> clearTimeout h s | None \<Rightarrow> s)"

subsection \<open>Editing and the debounced save\<close>

definition handleChange :: "string \<Rightarrow> Panel \<Rightarrow> Panel" where
  "handleChange v s =
     (let s1 = s\<lparr>fileContent := v, saveStatus := Some Dirty\<rparr>;
          s2 = (case saveTimerRef s1 of Some h \<Rightarrow> clearTimeout h s1 | None \<Rightarrow> s1)
      in if \<not> truthy (openFilePath s2) then s2
         else (setTimeout (SaveCallback (openFilePath s2) v) 800 s2)
                \<lparr>saveTimerRef := Some (nextHandle s2)\<rparr>)"

text \<open>What a timer does when it fires.\<close>

fun fire :: "TimerCallback \<Rightarrow> Panel \<Rightarrow> Panel" where
  "fire (SaveCallback p v) s = call (WriteFile p v) (s\<lparr>saveStatus := Some Saving\<rparr>)"
| "fire ClearSavedCallback s = s\<lparr>saveStatus := None\<rparr>"

text \<open>
  Time passes: the timers due within the window fire, earliest first and in the order
  they were armed when due together. No callback arms or clears a timer, so the timers
  that fire are those due at the start.
\<close>

definition fireTimer :: "Panel \<Rightarrow> Timer \<Rightarrow> Panel" where
  "fireTimer s x = fire (callback x) (s\<lparr>now := max (now s) (due x)\<rparr>)"

definition elapse :: "nat \<Rightarrow> Panel \<Rightarrow> Panel" where
  "elapse ms s =
     (let t = now s + ms;
          ready = sort_key due (filter (\<lambda>x. due x \<le> t) (timers s));
          s1 = s\<lparr>timers := filter (\<lambda>x. \<not> due x \<le> t) (timers s)\<rparr>
      in (foldl fireTimer s1 ready)\<lparr>now := t\<rparr>)"

subsection \<open>Promises settle\<close>

text \<open>The second argument is the resolved value, or \<^const>\<open>None\<close> (\<^const>\<open>False\<close>) for a rejection.\<close>

definition treeResolved :: "nat \<Rightarrow> TreeNode list option \<Rightarrow> Panel \<Rightarrow> Panel" where
  "treeResolved i res s =
     (case map_of (pending s) i of
        Some (GetFileTree c) \<Rightarrow>
          (case res of
             Some t \<Rightarrow> (settle i s)\<lparr>tree := t, treeLoading := False\<rparr>
           | None \<Rightarrow> (settle i s)\<lparr>treeLoading := False\<rparr>)
      | _ \<Rightarrow> s)"

definition readResolved :: "nat \<Rightarrow> string option \<Rightarrow> Panel \<Rightarrow> Panel" where
  "readResolved i res s =
     (case map_of (pending s) i of
        Some (ReadFile p) \<Rightarrow>
          (case res of
             Some content \<Rightarrow>
               (settle i s)\<lparr>fileContent := content, savedContent := content, fileLoading := False\<rparr>
           | None \<Rightarrow>
               (settle i s)\<lparr>fileContent := ''// Error loading file'', savedContent := [],
                            fileLoading := False\<rparr>)
      | _ \<Rightarrow> s)"

definition writeResolved :: "nat \<Rightarrow> bool \<Rightarrow> Panel \<Rightarrow> Panel" where
  "writeResolved i ok s =
     (case map_of (pending s) i of
        Some (WriteFile p v) \<Rightarrow>
          (if ok then setTimeout ClearSavedCallback 2000
                        ((settle i s)\<lparr>savedContent := v, saveStatus := Some Saved\<rparr>)
           else (settle i s)\<lparr>saveStatus := Some Dirty\<rparr>)
      | _ \<Rightarrow> s)"

definition diffResolved :: "nat \<Rightarrow> string option \<Rightarrow> Panel \<Rightarrow> Panel" where
  "diffResolved i res s =
     (case map_of (pending s) i of
        Some (GetFileDiff p) \<Rightarrow>
          (case res of
             Some d \<Rightarrow> (settle i s)\<lparr>diffContent := d, diffLoading := False\<rparr>
           | None \<Rightarrow> (settle i s)\<lparr>diffContent := [], diffLoading := False\<rparr>)
      | _ \<Rightarrow> s)"

subsection \<open>What the editor area shows\<close>

text \<open>The content of the editor area, which the panel renders once a working directory is known.\<close>

datatype EditorArea = SelectAFile | Spinner | ShowDiff DiffRender | CodeMirror string

definition editorArea :: "Panel \<Rightarrow> EditorArea" where
  "editorArea s =
     (if \<not> truthy (openFilePath s) then SelectAFile
      else if fileLoading s \<or> diffLoading s then Spinner
      else if diffMode s \<and> has (changedFiles s) (openFilePath s) then ShowDiff (DiffView (diffContent s))
      else CodeMirror (fileContent s))"

subsection \<open>Runs of the panel\<close>

datatype Event =
    Edit string
  | Elapse nat
  | SelectFile string
  | OpenFile "string option"
  | ChangedFiles "string list"
  | Cwd "string option"
  | ClickDiff
  | ClickEdit
  | TreeResolved nat "TreeNode list option"
  | ReadResolved nat "string option"
  | WriteResolved nat bool
  | DiffResolved nat "string option"
  | Unmount

fun step :: "Panel \<Rightarrow> Event \<Rightarrow> Panel" where
  "step s (Edit v) = handleChange v s"
| "step s (Elapse ms) = elapse ms s"
| "step s (SelectFile p) = handleFileSelect p s"
| "step s (OpenFile p) = openFileChanged p s"
| "step s (ChangedFiles files) = changedFilesChanged files s"
| "step s (Cwd c) = cwdChanged c s"
| "step s ClickDiff = setDiffMode True s"
| "step s ClickEdit = setDiffMode False s"
| "step s (TreeResolved i res) = treeResolved i res s"
| "step s (ReadResolved i res) = readResolved i res s"
| "step s (WriteResolved i ok) = writeResolved i ok s"
| "step s (DiffResolved i res) = diffResolved i res s"
| "step s Unmount = unmount s"

definition run :: "Event list \<Rightarrow> Panel \<Rightarrow> Panel" where
  "run evs s = foldl step s evs"

text \<open>A burst of edits: each is a pause followed by a change of the buffer.\<close>

fun edits :: "(nat \<times> string) list \<Rightarrow> Panel \<Rightarrow> Panel" where
  "edits [] s = s"
| "edits ((gap, v) # es) s = edits es (handleChange v (elapse gap s))"

text \<open>
  What holds of every state the panel reaches: handles and request ids in use are below
  the next ones, a pending save timer is the one \<^verbatim>\<open>saveTimerRef\<close> holds, and saves are
  for a truthy path.
\<close>

fun savesTruthy :: "Request \<Rightarrow> bool" where
  "savesTruthy (WriteFile p v) = truthy p"
| "savesTruthy _ = True"

fun isSave :: "TimerCallback \<Rightarrow> bool" where
  "isSave (SaveCallback p v) = True"
| "isSave ClearSavedCallback = False"

fun savePath :: "TimerCallback \<Rightarrow> string option" where
  "savePath (SaveCallback p v) = p"
| "savePath ClearSavedCallback = None"

text \<open>The call a timer makes when it fires, if any.\<close>

fun writeOf :: "Timer \<Rightarrow> Request list" where
  "writeOf t = (case callback t of SaveCallback p v \<Rightarrow> [WriteFile p v] | ClearSavedCallback \<Rightarrow> [])"

definition consistent :: "Panel \<Rightarrow> bool" where
  "consistent s =
     (list_all (\<lambda>t. handle t < nextHandle s) (timers s)
      \<and> (case saveTimerRef s of Some h \<Rightarrow> h < nextHandle s | None \<Rightarrow> True)
      \<and> list_all (\<lambda>t. \<not> isSave (callback t)
                        \<or> (saveTimerRef s = Some (handle t) \<and> truthy (savePath (callback t))))
           (timers s)
      \<and> list_all (\<lambda>q. fst q < nextRequest s \<and> savesTruthy (snd q)) (pending s)
      \<and> list_all savesTruthy (calls s))"

subsection \<open>Auxiliary predicates and example states\<close>

text \<open>
  The two halves of \<^const>\<open>consistent\<close> that concern timers and requests.
\<close>

definition timersOk :: "Panel \<Rightarrow> bool" where
  "timersOk s =
     (list_all (\<lambda>t. handle t < nextHandle s) (timers s)
      \<and> (case saveTimerRef s of Some h \<Rightarrow> h < nextHandle s | None \<Rightarrow> True)
      \<and> list_all (\<lambda>t. \<not> isSave (callback t)
                        \<or> (saveTimerRef s = Some (handle t) \<and> truthy (savePath (callback t))))
           (timers s))"

definition pendingOk :: "Panel \<Rightarrow> bool" where
  "pendingOk s = list_all (\<lambda>q. fst q < nextRequest s \<and> savesTruthy (snd q)) (pending s)"

text \<open>
  No \<^const>\<open>ClearSavedCallback\<close> timer is pending: no save succeeded within the last two
  seconds.
\<close>

definition quiet :: "Panel \<Rightarrow> bool" where
  "quiet s = list_all (\<lambda>t. isSave (callback t)) (timers s)"

text \<open>
  The state right after an edit: the only save timer is due 800 ms from now.
\<close>

definition armed :: "string \<Rightarrow> Panel \<Rightarrow> bool" where
  "armed p s =
     (consistent s \<and> openFilePath s = Some p \<and> p \<noteq> []
      \<and> (case filter (\<lambda>t. isSave (callback t)) (timers s) of
            [t] \<Rightarrow> due t = now s + 800
          | _ \<Rightarrow> False))"

text \<open>
  A small tree, the diff texts of the component's tests, and three states of a panel
  mounted on \<^verbatim>\<open>/repo\<close> with \<^verbatim>\<open>/repo/file.ts\<close> open: after the file has loaded, after the
  user has switched to the diff view, and while a save is in flight.
\<close>

definition exampleTree :: TreeNode where
  "exampleTree =
     TreeNode ''repo'' ''/repo'' Directory (Some
       [TreeNode ''src'' ''/repo/src'' Directory (Some
          [TreeNode ''app.ts'' ''/repo/src/app.ts'' File None]),
        TreeNode ''docs'' ''/repo/docs'' Directory (Some []),
        TreeNode ''README.md'' ''/repo/README.md'' File None])"

definition exampleDiff :: string where
  "exampleDiff =
     ''diff --git a/f.ts b/f.ts'' @ [LF] @ ''@@ -1,2 +1,2 @@'' @ [LF] @ '' context'' @ [LF]
       @ ''-removed'' @ [LF] @ ''+added''"

definition headerDiff :: string where
  "headerDiff =
     ''diff --git a/file.ts b/file.ts'' @ [LF] @ ''--- a/file.ts'' @ [LF] @ ''+++ b/file.ts'' @ [LF]
       @ ''@@ -1,3 +1,3 @@'' @ [LF] @ '' line1'' @ [LF] @ ''-old line'' @ [LF] @ ''+new line'' @ [LF] @ [LF]
       @ '' line3''"

definition loadedPanel :: Panel where
  "loadedPanel =
     readResolved 2 (Some ''file content'') (mount (Some ''/repo'') (Some ''/repo/file.ts'') [])"

definition diffPanel :: Panel where
  "diffPanel =
     setDiffMode True
       (readResolved 2 (Some ''file content'')
          (mount (Some ''/repo'') (Some ''/repo/file.ts'') [''/repo/file.ts'', ''/repo/src/app.ts'']))"

definition savingPanel :: Panel where
  "savingPanel = elapse 800 (handleChange ''x'' loadedPanel)"

section \<open>The change indicator of the file tree\<close>

lemma hcd_iff: "hasChangedDescendant node cf \<longleftrightarrow> (\<exists>m \<in> set (subtree node). path m \<in> cf)"
proof (induction node cf rule: hasChangedDescendant.induct)
  case (1 n p t cs cf)
  show ?case
  proof (cases cs)
    case None
    then show ?thesis by simp
  next
    case (Some kids)
    with 1 show ?thesis by (auto simp: list_ex_iff)
  qed
qed

lemma subtree_hd: "subtree node = node # descendants node"
  by (cases node) (simp add: descendants_def)

lemma self_in_subtree: "d \<in> set (subtree d)"
  by (simp add: subtree_hd)

lemma subtree_trans: "d \<in> set (subtree node) \<Longrightarrow> m \<in> set (subtree d) \<Longrightarrow> m \<in> set (subtree node)"
proof (induction node arbitrary: d rule: subtree.induct)
  case (1 n p t cs)
  show ?case
  proof (cases "d = TreeNode n p t cs")
    case True
    with 1 show ?thesis by simp
  next
    case False
    with 1(2) obtain kids k where "cs = Some kids" "k \<in> set kids" "d \<in> set (subtree k)"
      by (auto split: option.splits)
    with 1(1)[of kids k d] 1(3) show ?thesis by auto
  qed
qed

lemma descendants_closed:
  assumes "d \<in> set (descendants node)" "m \<in> set (subtree d)"
  shows "m \<in> set (descendants node)"
proof (cases node)
  case (TreeNode n p t cs)
  with assms(1) obtain kids k where k: "cs = Some kids" "k \<in> set kids" "d \<in> set (subtree k)"
    by (auto simp: descendants_def split: option.splits)
  from subtree_trans[OF k(3) assms(2)] k(1,2) TreeNode show ?thesis
    by (auto simp: descendants_def)
qed

lemma changedDot_subtree: "path d \<in> cf \<Longrightarrow> changedDot d cf"
  by (cases d) (auto simp: changedDot_def isChanged_def hasChanged_def isDir_def)

lemma changedDot_imp: "changedDot d cf \<Longrightarrow> \<exists>m \<in> set (subtree d). path m \<in> cf"
  unfolding changedDot_def isChanged_def hasChanged_def hcd_iff
  using self_in_subtree by blast

lemma changedDot_descendants:
  "(\<exists>d \<in> set (descendants node). changedDot d cf) \<longleftrightarrow> (\<exists>m \<in> set (descendants node). path m \<in> cf)"
proof
  assume "\<exists>d \<in> set (descendants node). changedDot d cf"
  then obtain d where d: "d \<in> set (descendants node)" "changedDot d cf" by blast
  from changedDot_imp[OF d(2)] obtain m where m: "m \<in> set (subtree d)" "path m \<in> cf" by blast
  from descendants_closed[OF d(1) m(1)] m(2) show "\<exists>m \<in> set (descendants node). path m \<in> cf"
    by blast
next
  assume "\<exists>m \<in> set (descendants node). path m \<in> cf"
  then obtain m where "m \<in> set (descendants node)" "path m \<in> cf" by blast
  with changedDot_subtree[of m cf] show "\<exists>d \<in> set (descendants node). changedDot d cf" by blast
qed

text \<open>
  C2. For every node and every changed set: \<^const>\<open>hasChangedDescendant\<close> holds iff some
  node of the subtree, the node included, has its path in the set. The dot
  \<^verbatim>\<open>FileTreeNode\<close> shows is, on a file node, membership of the node's path; on a directory
  node it is: the node's own path is in the set or some descendant at any depth shows the
  dot, equivalently some node of the subtree has its path in the set. A directory without
  children (absent or empty) shows the dot only when its own path is listed, and on any
  node without children \<^const>\<open>hasChangedDescendant\<close> is membership of the node's path.
\<close>

theorem changed_indicator_subtree:
  "(hasChangedDescendant node cf \<longleftrightarrow> (\<exists>m \<in> set (subtree node). path m \<in> cf))
   \<and> (node_type node = File \<longrightarrow> changedDot node cf = (path node \<in> cf))
   \<and> (node_type node = Directory \<longrightarrow>
         changedDot node cf = (path node \<in> cf \<or> (\<exists>d \<in> set (descendants node). changedDot d cf))
       \<and> changedDot node cf = (\<exists>m \<in> set (subtree node). path m \<in> cf))
   \<and> (node_type node = Directory \<and> (children node = None \<or> children node = Some []) \<longrightarrow>
         changedDot node cf = (path node \<in> cf))
   \<and> (children node = None \<or> children node = Some [] \<longrightarrow>
         hasChangedDescendant node cf = (path node \<in> cf))"
proof -
  have a: "hasChangedDescendant node cf \<longleftrightarrow> (\<exists>m \<in> set (subtree node). path m \<in> cf)"
    by (rule hcd_iff)
  have b: "changedDot node cf = (path node \<in> cf)" if "node_type node = File"
    using that by (simp add: changedDot_def isChanged_def hasChanged_def isDir_def)
  have c: "changedDot node cf = (\<exists>m \<in> set (subtree node). path m \<in> cf)" if "node_type node = Directory"
    using that by (simp add: changedDot_def isChanged_def hasChanged_def isDir_def hcd_iff)
  have d: "changedDot node cf = (path node \<in> cf \<or> (\<exists>d \<in> set (descendants node). changedDot d cf))"
    if "node_type node = Directory"
    unfolding c[OF that] changedDot_descendants by (simp add: subtree_hd)
  have e: "changedDot node cf = (path node \<in> cf)"
    if "node_type node = Directory \<and> (children node = None \<or> children node = Some [])"
    using that by (cases node) (auto simp: changedDot_def isChanged_def hasChanged_def isDir_def)
  have f: "hasChangedDescendant node cf = (path node \<in> cf)"
    if "children node = None \<or> children node = Some []"
    using that by (cases node) auto
  from a b c d e f show ?thesis by blast
qed

theorem changed_indicator_subtree_witness:
  "node_type exampleTree = Directory
   \<and> changedDot exampleTree {''/repo/src/app.ts''}
   \<and> (\<exists>d \<in> set (descendants exampleTree). changedDot d {''/repo/src/app.ts''})
   \<and> \<not> changedDot exampleTree {''/elsewhere/app.ts''}
   \<and> \<not> changedDot (TreeNode ''docs'' ''/repo/docs'' Directory (Some [])) {''/repo/src/app.ts''}
   \<and> changedDot (TreeNode ''docs'' ''/repo/docs'' Directory (Some [])) {''/repo/docs''}
   \<and> changedDot (TreeNode ''app.ts'' ''/repo/src/app.ts'' File None) {''/repo/src/app.ts''}"
  using changed_indicator_subtree[of exampleTree "{''/repo/src/app.ts''}"]
        changed_indicator_subtree[of exampleTree "{''/elsewhere/app.ts''}"]
        changed_indicator_subtree[of "TreeNode ''docs'' ''/repo/docs'' Directory (Some [])" "{''/repo/src/app.ts''}"]
        changed_indicator_subtree[of "TreeNode ''docs'' ''/repo/docs'' Directory (Some [])" "{''/repo/docs''}"]
        changed_indicator_subtree[of "TreeNode ''app.ts'' ''/repo/src/app.ts'' File None" "{''/repo/src/app.ts''}"]
  by (simp add: exampleTree_def descendants_def changedDot_def isChanged_def hasChanged_def isDir_def)

section \<open>The diff view\<close>

lemma split_lines_ne: "split_lines s \<noteq> []"
  by (induction s) (auto simp: Let_def)

lemma join_split: "join_lines (split_lines s) = s"
proof (induction s)
  case Nil show ?case by simp
next
  case (Cons c cs)
  obtain l ls where e: "split_lines cs = l # ls" using split_lines_ne[of cs] by (cases "split_lines cs") auto
  with Cons show ?case by (cases ls) (auto simp: Let_def)
qed

lemma length_split: "length (split_lines s) = Suc (count_list s LF)"
  using split_lines_ne by (induction s) (auto simp: Suc_pred Let_def)

lemma no_LF: "l \<in> set (split_lines s) \<Longrightarrow> LF \<notin> set l"
proof (induction s arbitrary: l)
  case Nil then show ?case by simp
next
  case (Cons c cs)
  obtain a as where e: "split_lines cs = a # as" using split_lines_ne[of cs] by (cases "split_lines cs") auto
  with Cons show ?case by (auto simp: Let_def split: if_splits)
qed

lemma startsWith_take: "startsWith s p \<longleftrightarrow> take (length p) s = p"
  unfolding startsWith_def prefix_def by (metis append_eq_conv_conj)

text \<open>
  C3. For a non-empty diff text the view renders one row per piece between line feeds, in
  order: as many rows as line feeds plus one, joining the pieces with line feeds gives the
  text back, and no piece contains a line feed. Every line gets the category of the first
  rule that matches: starts with \<^verbatim>\<open>+\<close> and not with \<^verbatim>\<open>+++\<close>, addition; else starts with
  \<^verbatim>\<open>-\<close> and not with \<^verbatim>\<open>---\<close>, deletion; else starts with \<^verbatim>\<open>@@\<close>, hunk header; else
  starts with \<^verbatim>\<open>diff\<close> or \<^verbatim>\<open>index\<close>, metadata; else context. The five lines of the
  example diff are metadata, hunk header, context, deletion, addition.
\<close>

theorem diff_lines_classified:
  assumes "diff \<noteq> []"
  shows "(\<exists>rows. DiffView diff = DiffLines rows
            \<and> length rows = Suc (count_list diff LF)
            \<and> map category rows = map lineCategory (split_lines diff)
            \<and> map text_of rows = map (\<lambda>l. if l = [] then NBSP else l) (split_lines diff))
       \<and> join_lines (split_lines diff) = diff
       \<and> (\<forall>l \<in> set (split_lines diff). LF \<notin> set l)
       \<and> (\<forall>l. lineCategory l =
            (if take 1 l = ''+'' \<and> take 3 l \<noteq> ''+++'' then Addition
             else if take 1 l = ''-'' \<and> take 3 l \<noteq> ''---'' then Deletion
             else if take 2 l = ''@@'' then HunkHeader
             else if take 4 l = ''diff'' \<or> take 5 l = ''index'' then Metadata
             else ContextLine))
       \<and> (\<exists>rows. DiffView exampleDiff = DiffLines rows
            \<and> map category rows = [Metadata, HunkHeader, ContextLine, Deletion, Addition])"
proof -
  let ?rows = "map renderLine (split_lines diff)"
  have "DiffView diff = DiffLines ?rows" using assms by (simp add: DiffView_def)
  moreover have "length ?rows = Suc (count_list diff LF)" by (simp add: length_split)
  moreover have "map category ?rows = map lineCategory (split_lines diff)"
    by (simp add: renderLine_def)
  moreover have "map text_of ?rows = map (\<lambda>l. if l = [] then NBSP else l) (split_lines diff)"
    by (simp add: renderLine_def)
  ultimately have 1: "\<exists>rows. DiffView diff = DiffLines rows
            \<and> length rows = Suc (count_list diff LF)
            \<and> map category rows = map lineCategory (split_lines diff)
            \<and> map text_of rows = map (\<lambda>l. if l = [] then NBSP else l) (split_lines diff)"
    by blast
  have 2: "\<forall>l \<in> set (split_lines diff). LF \<notin> set l" using no_LF by blast
  have 3: "\<forall>l. lineCategory l =
            (if take 1 l = ''+'' \<and> take 3 l \<noteq> ''+++'' then Addition
             else if take 1 l = ''-'' \<and> take 3 l \<noteq> ''---'' then Deletion
             else if take 2 l = ''@@'' then HunkHeader
             else if take 4 l = ''diff'' \<or> take 5 l = ''index'' then Metadata
             else ContextLine)"
  proof -
    have sw: "startsWith l ''+'' \<longleftrightarrow> take 1 l = ''+''"
             "startsWith l ''+++'' \<longleftrightarrow> take 3 l = ''+++''"
             "startsWith l ''-'' \<longleftrightarrow> take 1 l = ''-''"
             "startsWith l ''---'' \<longleftrightarrow> take 3 l = ''---''"
             "startsWith l ''@@'' \<longleftrightarrow> take 2 l = ''@@''"
             "startsWith l ''diff'' \<longleftrightarrow> take 4 l = ''diff''"
             "startsWith l ''index'' \<longleftrightarrow> take 5 l = ''index''" for l
      using startsWith_take[of l "''+''"] startsWith_take[of l "''+++''"]
            startsWith_take[of l "''-''"] startsWith_take[of l "''---''"]
            startsWith_take[of l "''@@''"] startsWith_take[of l "''diff''"]
            startsWith_take[of l "''index''"]
      by (simp_all add: eval_nat_numeral)
    show ?thesis unfolding lineCategory_def sw by (rule allI) (rule refl)
  qed
  have 4: "\<exists>rows. DiffView exampleDiff = DiffLines rows
            \<and> map category rows = [Metadata, HunkHeader, ContextLine, Deletion, Addition]"
    by (simp add: exampleDiff_def DiffView_def renderLine_def lineCategory_def startsWith_def LF_def)
  from 1 join_split 2 3 4 show ?thesis by blast
qed

theorem diff_lines_classified_witness:
  "headerDiff \<noteq> []
   \<and> DiffView headerDiff =
       DiffLines [\<lparr>category = Metadata, text_of = ''diff --git a/file.ts b/file.ts''\<rparr>,
                  \<lparr>category = ContextLine, text_of = ''--- a/file.ts''\<rparr>,
                  \<lparr>category = ContextLine, text_of = ''+++ b/file.ts''\<rparr>,
                  \<lparr>category = HunkHeader, text_of = ''@@ -1,3 +1,3 @@''\<rparr>,
                  \<lparr>category = ContextLine, text_of = '' line1''\<rparr>,
                  \<lparr>category = Deletion, text_of = ''-old line''\<rparr>,
                  \<lparr>category = Addition, text_of = ''+new line''\<rparr>,
                  \<lparr>category = ContextLine, text_of = NBSP\<rparr>,
                  \<lparr>category = ContextLine, text_of = '' line3''\<rparr>]
   \<and> join_lines (split_lines headerDiff) = headerDiff
   \<and> count_list headerDiff LF = 8"
proof -
  have ne: "headerDiff \<noteq> []" by (simp add: headerDiff_def)
  have v: "DiffView headerDiff =
       DiffLines [\<lparr>category = Metadata, text_of = ''diff --git a/file.ts b/file.ts''\<rparr>,
                  \<lparr>category = ContextLine, text_of = ''--- a/file.ts''\<rparr>,
                  \<lparr>category = ContextLine, text_of = ''+++ b/file.ts''\<rparr>,
                  \<lparr>category = HunkHeader, text_of = ''@@ -1,3 +1,3 @@''\<rparr>,
                  \<lparr>category = ContextLine, text_of = '' line1''\<rparr>,
                  \<lparr>category = Deletion, text_of = ''-old line''\<rparr>,
                  \<lparr>category = Addition, text_of = ''+new line''\<rparr>,
                  \<lparr>category = ContextLine, text_of = NBSP\<rparr>,
                  \<lparr>category = ContextLine, text_of = '' line3''\<rparr>]"
    by (simp add: headerDiff_def DiffView_def renderLine_def lineCategory_def startsWith_def LF_def)
  from diff_lines_classified[OF ne] v show ?thesis
    using ne by auto
qed

section \<open>The changed files of the sidebar\<close>

lemma mset_insert_by: "mset (insert_by cmp x ys) = add_mset x (mset ys)"
  by (induction ys) auto

lemma set_insert_by: "set (insert_by cmp x ys) = insert x (set ys)"
  by (induction ys) auto

lemma sorted_insert_by:
  assumes total: "\<And>a b. cmp a b \<le> 0 \<or> cmp b a \<le> 0"
      and trans: "\<And>a b c. cmp a b \<le> 0 \<Longrightarrow> cmp b c \<le> 0 \<Longrightarrow> cmp a c \<le> 0"
      and "sorted_wrt (\<lambda>a b. cmp a b \<le> 0) ys"
  shows "sorted_wrt (\<lambda>a b. cmp a b \<le> (0::int)) (insert_by cmp x ys)"
  using assms(3)
proof (induction ys)
  case Nil
  then show ?case by simp
next
  case (Cons y ys)
  show ?case
  proof (cases "cmp x y \<le> 0")
    case True
    with Cons.prems trans show ?thesis by auto
  next
    case False
    with total have "cmp y x \<le> 0" by blast
    with False Cons show ?thesis by (auto simp: set_insert_by)
  qed
qed

lemma mset_sort_by: "mset (sort_by cmp xs) = mset xs"
  by (induction xs) (auto simp: sort_by_def mset_insert_by)

lemma sorted_sort_by:
  assumes total: "\<And>a b. cmp a b \<le> 0 \<or> cmp b a \<le> 0"
      and trans: "\<And>a b c. cmp a b \<le> 0 \<Longrightarrow> cmp b c \<le> 0 \<Longrightarrow> cmp a c \<le> 0"
  shows "sorted_wrt (\<lambda>a b. cmp a b \<le> (0::int)) (sort_by cmp xs)"
proof (induction xs)
  case Nil
  then show ?case by (simp add: sort_by_def)
next
  case (Cons x xs)
  have "sort_by cmp (x # xs) = insert_by cmp x (sort_by cmp xs)" by (simp add: sort_by_def)
  with Cons sorted_insert_by[of cmp, OF total trans] show ?case by simp
qed

lemma codeUnitCompare_total: "codeUnitCompare a b \<le> 0 \<or> codeUnitCompare b a \<le> 0"
  by (induction a b rule: codeUnitCompare.induct) auto

lemma codeUnitCompare_Cons_le:
  "codeUnitCompare (x # xs) (y # ys) \<le> 0 \<longleftrightarrow>
     (of_char x :: nat) < of_char y \<or> ((of_char x :: nat) = of_char y \<and> codeUnitCompare xs ys \<le> 0)"
  by (cases "(of_char x :: nat) < of_char y"; cases "(of_char y :: nat) < of_char x") auto

lemma codeUnitCompare_trans:
  "codeUnitCompare a b \<le> 0 \<Longrightarrow> codeUnitCompare b c \<le> 0 \<Longrightarrow> codeUnitCompare a c \<le> 0"
proof (induction a arbitrary: b c)
  case Nil
  then show ?case by (cases c) simp_all
next
  case (Cons x xs)
  from Cons.prems(1) obtain y ys where b: "b = y # ys" by (cases b) simp_all
  from Cons.prems(2) b obtain z zs where c: "c = z # zs" by (cases c) simp_all
  from Cons.prems b c
  have xy: "(of_char x :: nat) < of_char y \<or> ((of_char x :: nat) = of_char y \<and> codeUnitCompare xs ys \<le> 0)"
    and yz: "(of_char y :: nat) < of_char z \<or> ((of_char y :: nat) = of_char z \<and> codeUnitCompare ys zs \<le> 0)"
    by (simp_all only: codeUnitCompare_Cons_le)
  show ?case
  proof (cases "(of_char x :: nat) < of_char z")
    case True
    then show ?thesis unfolding c codeUnitCompare_Cons_le by blast
  next
    case False
    with xy yz have "(of_char x :: nat) = of_char z" "codeUnitCompare xs ys \<le> 0" "codeUnitCompare ys zs \<le> 0"
      by linarith+
    with Cons.IH[of ys zs] show ?thesis unfolding c codeUnitCompare_Cons_le by blast
  qed
qed

lemma codeUnitCompare_neg: "codeUnitCompare a b = - codeUnitCompare b a"
  by (induction a b rule: codeUnitCompare.induct) auto

lemma codeUnitCompare_refl: "codeUnitCompare a a = 0"
  by (induction a) auto

lemma codeUnitCompare_eq: "codeUnitCompare a b = 0 \<Longrightarrow> a = b"
  by (induction a b rule: codeUnitCompare.induct) (auto split: if_splits)

lemma codeUnitCompare_less_trans:
  assumes "codeUnitCompare a b < 0" "codeUnitCompare b c \<le> 0"
  shows "codeUnitCompare a c < 0"
proof -
  from assms have le: "codeUnitCompare a c \<le> 0" using codeUnitCompare_trans[of a b c] by simp
  have "codeUnitCompare a c \<noteq> 0"
  proof
    assume "codeUnitCompare a c = 0"
    then have "a = c" by (rule codeUnitCompare_eq)
    with assms(2) have "codeUnitCompare b a \<le> 0" by simp
    with codeUnitCompare_neg[of a b] assms(1) show False by simp
  qed
  with le show ?thesis by simp
qed

lemma codeUnitCompare_less_trans':
  assumes "codeUnitCompare a b \<le> 0" "codeUnitCompare b c < 0"
  shows "codeUnitCompare a c < 0"
proof -
  from assms have le: "codeUnitCompare a c \<le> 0" using codeUnitCompare_trans[of a b c] by simp
  have "codeUnitCompare a c \<noteq> 0"
  proof
    assume "codeUnitCompare a c = 0"
    then have "a = c" by (rule codeUnitCompare_eq)
    with assms(1) have "codeUnitCompare c b \<le> 0" by simp
    with codeUnitCompare_neg[of b c] assms(2) show False by simp
  qed
  with le show ?thesis by simp
qed

lemma collate_le:
  "collate a b \<le> 0 \<longleftrightarrow>
     codeUnitCompare (map toLowerCase a) (map toLowerCase b) < 0
     \<or> (codeUnitCompare (map toLowerCase a) (map toLowerCase b) = 0 \<and> codeUnitCompare b a \<le> 0)"
  by (auto simp: collate_def Let_def)

lemma collate_total: "collate a b \<le> 0 \<or> collate b a \<le> 0"
  unfolding collate_le
  using codeUnitCompare_neg[of "map toLowerCase a" "map toLowerCase b"] codeUnitCompare_total[of a b]
  by auto

lemma collate_trans:
  assumes "collate a b \<le> 0" "collate b c \<le> 0"
  shows "collate a c \<le> 0"
proof -
  let ?P = "\<lambda>x y. codeUnitCompare (map toLowerCase x) (map toLowerCase y)"
  from assms have ab: "?P a b < 0 \<or> (?P a b = 0 \<and> codeUnitCompare b a \<le> 0)"
    and bc: "?P b c < 0 \<or> (?P b c = 0 \<and> codeUnitCompare c b \<le> 0)"
    by (simp_all only: collate_le)
  show ?thesis
  proof (cases "?P a b < 0")
    case True
    from bc have "?P b c \<le> 0" by auto
    from codeUnitCompare_less_trans[OF True this] show ?thesis unfolding collate_le by blast
  next
    case False
    with ab have e: "?P a b = 0" and t: "codeUnitCompare b a \<le> 0" by auto
    show ?thesis
    proof (cases "?P b c < 0")
      case True
      from e have "?P a b \<le> 0" by simp
      from codeUnitCompare_less_trans'[OF this True] show ?thesis unfolding collate_le by blast
    next
      case False
      with bc have e': "?P b c = 0" and t': "codeUnitCompare c b \<le> 0" by auto
      from e e' have "map toLowerCase a = map toLowerCase c"
        using codeUnitCompare_eq by metis
      then have "?P a c = 0" by (simp add: codeUnitCompare_refl)
      moreover from codeUnitCompare_trans[OF t' t] have "codeUnitCompare c a \<le> 0" .
      ultimately show ?thesis unfolding collate_le by blast
    qed
  qed
qed

text \<open>
  C9. For a working directory that is set: the list has one entry for each changed path,
  its relative form is the path without the prefix \<^verbatim>\<open>cwd + "/"\<close> when the path has that
  prefix and the path itself otherwise, and the entries are sorted by their relative forms
  in the order of the comparator the component sorts with, \<^verbatim>\<open>localeCompare\<close> (a total
  preorder, given by the platform's collation). The changed set \<^verbatim>\<open>{"/repo/src/app.ts"}\<close>
  with working directory \<^verbatim>\<open>/repo\<close> gives exactly one entry, labelled \<^verbatim>\<open>src/app.ts\<close>.
\<close>

theorem changed_list_relative_sorted: 
  assumes total: "\<forall>a b. cmp a b \<le> 0 \<or> cmp b a \<le> 0"
      and trans: "\<forall>a b c. cmp a b \<le> 0 \<longrightarrow> cmp b c \<le> 0 \<longrightarrow> cmp a c \<le> 0"
      and w0: "w \<noteq> []"
  shows "mset (relativeChangedFiles cmp changed (Some w)) = mset (map (relEntry w) changed)
     \<and> sorted_wrt (\<lambda>a b. cmp (rel a) (rel b) \<le> 0) (relativeChangedFiles cmp changed (Some w))
     \<and> (\<forall>fp. abs_path (relEntry w fp) = fp)
     \<and> (\<forall>r. rel (relEntry w (w @ ''/'' @ r)) = r)
     \<and> (\<forall>fp. \<not> prefix (w @ ''/'') fp \<longrightarrow> rel (relEntry w fp) = fp)
     \<and> relativeChangedFiles cmp [''/repo/src/app.ts''] (Some ''/repo'')
           = [\<lparr>abs_path = ''/repo/src/app.ts'', rel = ''src/app.ts''\<rparr>]"
proof -
  let ?c = "\<lambda>a b. cmp (rel a) (rel b)"
  have t1: "\<And>a b. ?c a b \<le> 0 \<or> ?c b a \<le> 0" using total by blast
  have t2: "\<And>a b c. ?c a b \<le> 0 \<Longrightarrow> ?c b c \<le> 0 \<Longrightarrow> ?c a c \<le> 0" using trans by blast
  have e: "relativeChangedFiles cmp changed (Some w) = sort_by ?c (map (relEntry w) changed)"
    using w0 by (cases changed) (simp_all add: relativeChangedFiles_def sort_by_def)
  have 1: "mset (relativeChangedFiles cmp changed (Some w)) = mset (map (relEntry w) changed)"
    unfolding e by (rule mset_sort_by)
  have 2: "sorted_wrt (\<lambda>a b. cmp (rel a) (rel b) \<le> 0) (relativeChangedFiles cmp changed (Some w))"
    unfolding e by (rule sorted_sort_by[of ?c, OF t1 t2])
  have 3: "\<forall>fp. abs_path (relEntry w fp) = fp" by (simp add: relEntry_def)
  have 4: "\<forall>r. rel (relEntry w (w @ ''/'' @ r)) = r" by (simp add: relEntry_def startsWith_def)
  have 5: "\<forall>fp. \<not> prefix (w @ ''/'') fp \<longrightarrow> rel (relEntry w fp) = fp"
    by (simp add: relEntry_def startsWith_def)
  have 6: "relativeChangedFiles cmp [''/repo/src/app.ts''] (Some ''/repo'')
           = [\<lparr>abs_path = ''/repo/src/app.ts'', rel = ''src/app.ts''\<rparr>]"
    by (simp add: relativeChangedFiles_def sort_by_def relEntry_def startsWith_def)
  from 1 2 3 4 5 6 show ?thesis by blast
qed

theorem changed_list_relative_sorted_witness:
  "''/repo'' \<noteq> []
   \<and> relativeChangedFiles collate [''/repo/src/b.ts'', ''/repo/B.ts'', ''/repo/a.ts''] (Some ''/repo'')
       = [\<lparr>abs_path = ''/repo/a.ts'', rel = ''a.ts''\<rparr>,
          \<lparr>abs_path = ''/repo/B.ts'', rel = ''B.ts''\<rparr>,
          \<lparr>abs_path = ''/repo/src/b.ts'', rel = ''src/b.ts''\<rparr>]
   \<and> sorted_wrt (\<lambda>a b. collate (rel a) (rel b) \<le> 0)
        (relativeChangedFiles collate [''/repo/src/b.ts'', ''/repo/B.ts'', ''/repo/a.ts''] (Some ''/repo''))
   \<and> relativeChangedFiles collate [''/repo/src/app.ts''] (Some ''/repo'')
       = [\<lparr>abs_path = ''/repo/src/app.ts'', rel = ''src/app.ts''\<rparr>]"
proof -
  have ne: "''/repo'' \<noteq> []" by simp
  have v: "relativeChangedFiles collate [''/repo/src/b.ts'', ''/repo/B.ts'', ''/repo/a.ts''] (Some ''/repo'')
       = [\<lparr>abs_path = ''/repo/a.ts'', rel = ''a.ts''\<rparr>,
          \<lparr>abs_path = ''/repo/B.ts'', rel = ''B.ts''\<rparr>,
          \<lparr>abs_path = ''/repo/src/b.ts'', rel = ''src/b.ts''\<rparr>]"
    by (simp add: relativeChangedFiles_def sort_by_def relEntry_def startsWith_def collate_def
          toLowerCase_def Let_def)
  have tot: "\<forall>a b. collate a b \<le> 0 \<or> collate b a \<le> 0"
    using collate_total by blast
  have tr: "\<forall>a b c. collate a b \<le> 0 \<longrightarrow> collate b c \<le> 0 \<longrightarrow> collate a c \<le> 0"
    using collate_trans by blast
  note th = changed_list_relative_sorted[of collate "''/repo''"
         "[''/repo/src/b.ts'', ''/repo/B.ts'', ''/repo/a.ts'']", OF tot tr ne]
  have s: "sorted_wrt (\<lambda>a b. collate (rel a) (rel b) \<le> 0)
        (relativeChangedFiles collate [''/repo/src/b.ts'', ''/repo/B.ts'', ''/repo/a.ts''] (Some ''/repo''))"
    using th by (elim conjE)
  have x: "relativeChangedFiles collate [''/repo/src/app.ts''] (Some ''/repo'')
       = [\<lparr>abs_path = ''/repo/src/app.ts'', rel = ''src/app.ts''\<rparr>]"
    using th by (elim conjE)
  from ne v s x show ?thesis by (intro conjI)
qed

text \<open>
  The order is not the lexicographic one of the code units: the changed paths
  \<^verbatim>\<open>/repo/B.ts\<close>, \<^verbatim>\<open>/repo/b.ts\<close> and \<^verbatim>\<open>/repo/a.ts\<close> are listed as \<^verbatim>\<open>a.ts\<close>, \<^verbatim>\<open>b.ts\<close>,
  \<^verbatim>\<open>B.ts\<close>, while by code units \<^verbatim>\<open>B.ts\<close> comes before \<^verbatim>\<open>a.ts\<close>.
\<close>

theorem changed_list_relative_sorted_counterexample:
  "relativeChangedFiles collate [''/repo/B.ts'', ''/repo/b.ts'', ''/repo/a.ts''] (Some ''/repo'')
       = [\<lparr>abs_path = ''/repo/a.ts'', rel = ''a.ts''\<rparr>,
          \<lparr>abs_path = ''/repo/b.ts'', rel = ''b.ts''\<rparr>,
          \<lparr>abs_path = ''/repo/B.ts'', rel = ''B.ts''\<rparr>]
   \<and> \<not> sorted_wrt (\<lambda>x y. codeUnitCompare (rel x) (rel y) \<le> 0)
        (relativeChangedFiles collate [''/repo/B.ts'', ''/repo/b.ts'', ''/repo/a.ts''] (Some ''/repo''))
   \<and> codeUnitCompare ''a.ts'' ''B.ts'' = 1"
  by (simp add: relativeChangedFiles_def sort_by_def relEntry_def startsWith_def collate_def
        toLowerCase_def Let_def)

section \<open>The panel\<close>

subsection \<open>Timers, time and consistency\<close>

lemmas prim_defs = setTimeout_def clearTimeout_def call_def settle_def

lemmas panel_defs =
  mount_def initial_def loadTreeEffect_def loadFileEffect_def fetchDiffEffect_def
  setDiffMode_def openFileChanged_def handleFileSelect_def changedFilesChanged_def cwdChanged_def
  call_def settle_def setTimeout_def clearTimeout_def has_def
  readResolved_def writeResolved_def diffResolved_def treeResolved_def
  handleChange_def elapse_def fireTimer_def Let_def unmount_def

lemma fireTimer_keeps [simp]:
  "timers (fireTimer s x) = timers s"
  "openFilePath (fireTimer s x) = openFilePath s"
  "fileContent (fireTimer s x) = fileContent s"
  "savedContent (fireTimer s x) = savedContent s"
  "saveTimerRef (fireTimer s x) = saveTimerRef s"
  "nextHandle (fireTimer s x) = nextHandle s"
  "diffMode (fireTimer s x) = diffMode s"
  "calls (fireTimer s x) = calls s @ writeOf x"
  by (cases "callback x"; simp add: fireTimer_def call_def)+

lemma foldl_fireTimer_keeps [simp]:
  "timers (foldl fireTimer s xs) = timers s"
  "openFilePath (foldl fireTimer s xs) = openFilePath s"
  "fileContent (foldl fireTimer s xs) = fileContent s"
  "savedContent (foldl fireTimer s xs) = savedContent s"
  "saveTimerRef (foldl fireTimer s xs) = saveTimerRef s"
  "nextHandle (foldl fireTimer s xs) = nextHandle s"
  "diffMode (foldl fireTimer s xs) = diffMode s"
  "calls (foldl fireTimer s xs) = calls s @ concat (map writeOf xs)"
  by (induction xs arbitrary: s; simp del: writeOf.simps)+

lemma elapse_keeps [simp]:
  "timers (elapse d s) = filter (\<lambda>x. \<not> due x \<le> now s + d) (timers s)"
  "openFilePath (elapse d s) = openFilePath s"
  "fileContent (elapse d s) = fileContent s"
  "savedContent (elapse d s) = savedContent s"
  "saveTimerRef (elapse d s) = saveTimerRef s"
  "nextHandle (elapse d s) = nextHandle s"
  "diffMode (elapse d s) = diffMode s"
  "now (elapse d s) = now s + d"
  "calls (elapse d s) = calls s @ concat (map writeOf (sort_key due (filter (\<lambda>x. due x \<le> now s + d) (timers s))))"
  by (simp_all add: elapse_def Let_def del: writeOf.simps)

lemma consistent_alt: "consistent s \<longleftrightarrow> timersOk s \<and> pendingOk s \<and> list_all savesTruthy (calls s)"
  by (simp add: consistent_def timersOk_def pendingOk_def)

lemma savesTruthy_writeOf:
  "\<not> isSave (callback x) \<or> truthy (savePath (callback x)) \<Longrightarrow> list_all savesTruthy (writeOf x)"
  by (cases "callback x") simp_all

lemma pendingOk_fireTimer:
  "pendingOk s \<Longrightarrow> \<not> isSave (callback x) \<or> truthy (savePath (callback x)) \<Longrightarrow> pendingOk (fireTimer s x)"
  by (cases "callback x") (auto simp: pendingOk_def fireTimer_def call_def list_all_iff)

lemma pendingOk_foldl:
  "pendingOk s \<Longrightarrow> list_all (\<lambda>x. \<not> isSave (callback x) \<or> truthy (savePath (callback x))) xs
     \<Longrightarrow> pendingOk (foldl fireTimer s xs)"
  by (induction xs arbitrary: s) (simp_all add: pendingOk_fireTimer)

lemma timersOk_elapse: "timersOk s \<Longrightarrow> timersOk (elapse d s)"
  by (auto simp: timersOk_def list_all_iff split: option.splits)

lemma pendingOk_elapse:
  assumes "timersOk s" "pendingOk s"
  shows "pendingOk (elapse d s)"
proof -
  let ?t = "now s + d"
  let ?ready = "sort_key due (filter (\<lambda>x. due x \<le> ?t) (timers s))"
  let ?s1 = "s\<lparr>timers := filter (\<lambda>x. \<not> due x \<le> ?t) (timers s)\<rparr>"
  have r: "list_all (\<lambda>x. \<not> isSave (callback x) \<or> truthy (savePath (callback x))) ?ready"
    using assms(1) by (auto simp: timersOk_def list_all_iff)
  have "pendingOk ?s1" using assms(2) by (simp add: pendingOk_def)
  from pendingOk_foldl[OF this r] have "pendingOk (foldl fireTimer ?s1 ?ready)" .
  moreover have "elapse d s = (foldl fireTimer ?s1 ?ready)\<lparr>now := ?t\<rparr>"
    by (simp add: elapse_def Let_def)
  ultimately show ?thesis by (simp add: pendingOk_def)
qed

lemma callsOk_elapse:
  assumes "timersOk s" "list_all savesTruthy (calls s)"
  shows "list_all savesTruthy (calls (elapse d s))"
proof -
  have "list_all savesTruthy (writeOf x)" if "x \<in> set (timers s)" for x
    using that assms(1) by (intro savesTruthy_writeOf) (auto simp: timersOk_def list_all_iff)
  then show ?thesis using assms(2)
    by (auto simp: list_all_iff simp del: writeOf.simps)
qed

lemma consistent_elapse: "consistent s \<Longrightarrow> consistent (elapse d s)"
  unfolding consistent_alt using timersOk_elapse pendingOk_elapse callsOk_elapse by blast

lemma consistent_handleChange: "consistent s \<Longrightarrow> consistent (handleChange v s)"
  by (auto simp: consistent_def handleChange_def Let_def prim_defs list_all_iff less_Suc_eq split: option.splits)

lemma consistent_call: "consistent s \<Longrightarrow> savesTruthy r \<Longrightarrow> consistent (call r s)"
  by (auto simp: consistent_def call_def list_all_iff less_Suc_eq split: option.splits)

lemma consistent_settle: "consistent s \<Longrightarrow> consistent (settle i s)"
  by (auto simp: consistent_def settle_def list_all_iff split: option.splits)

lemma consistent_upd [simp]:
  "consistent (s\<lparr>treeLoading := a\<rparr>) = consistent s"
  "consistent (s\<lparr>fileLoading := a\<rparr>) = consistent s"
  "consistent (s\<lparr>diffLoading := a\<rparr>) = consistent s"
  "consistent (s\<lparr>saveStatus := b\<rparr>) = consistent s"
  "consistent (s\<lparr>diffMode := a\<rparr>) = consistent s"
  "consistent (s\<lparr>openFilePath := p\<rparr>) = consistent s"
  "consistent (s\<lparr>changedFiles := cf\<rparr>) = consistent s"
  "consistent (s\<lparr>cwd := p\<rparr>) = consistent s"
  "consistent (s\<lparr>tree := tr\<rparr>) = consistent s"
  "consistent (s\<lparr>fileContent := c\<rparr>) = consistent s"
  "consistent (s\<lparr>savedContent := c\<rparr>) = consistent s"
  "consistent (s\<lparr>diffContent := c\<rparr>) = consistent s"
  by (simp_all add: consistent_def split: option.splits)

lemma consistent_effects:
  "consistent s \<Longrightarrow> consistent (loadTreeEffect s)"
  "consistent s \<Longrightarrow> consistent (loadFileEffect s)"
  "consistent s \<Longrightarrow> consistent (fetchDiffEffect s)"
  by (simp_all add: loadTreeEffect_def loadFileEffect_def fetchDiffEffect_def consistent_call)

lemma consistent_setDiffMode: "consistent s \<Longrightarrow> consistent (setDiffMode b s)"
  by (simp add: setDiffMode_def consistent_effects)

lemma consistent_openFileChanged: "consistent s \<Longrightarrow> consistent (openFileChanged p s)"
  by (simp add: openFileChanged_def consistent_effects consistent_setDiffMode)

lemma consistent_store:
  "consistent s \<Longrightarrow> consistent (changedFilesChanged cf s)"
  "consistent s \<Longrightarrow> consistent (cwdChanged c s)"
  "consistent s \<Longrightarrow> consistent (handleFileSelect q s)"
  by (simp_all add: changedFilesChanged_def cwdChanged_def handleFileSelect_def consistent_effects consistent_openFileChanged)

lemma consistent_setTimeout_clear: "consistent s \<Longrightarrow> consistent (setTimeout ClearSavedCallback d s)"
  by (auto simp: consistent_def setTimeout_def list_all_iff less_Suc_eq split: option.splits)

lemma consistent_resolved:
  "consistent s \<Longrightarrow> consistent (treeResolved i tr s)"
  "consistent s \<Longrightarrow> consistent (readResolved i rr s)"
  "consistent s \<Longrightarrow> consistent (writeResolved i ok s)"
  "consistent s \<Longrightarrow> consistent (diffResolved i dr s)"
  by (simp_all add: treeResolved_def readResolved_def writeResolved_def diffResolved_def
        consistent_settle consistent_setTimeout_clear split: option.splits Request.splits)

lemma consistent_unmount: "consistent s \<Longrightarrow> consistent (unmount s)"
  by (auto simp: consistent_def unmount_def clearTimeout_def list_all_iff split: option.splits)

lemma consistent_step: "consistent s \<Longrightarrow> consistent (step s e)"
  by (cases e) (simp_all add: consistent_handleChange consistent_elapse consistent_store consistent_openFileChanged consistent_setDiffMode consistent_resolved consistent_unmount)

lemma consistent_run: "consistent s \<Longrightarrow> consistent (run evs s)"
  unfolding run_def by (induction evs arbitrary: s) (simp_all add: consistent_step)

lemma consistent_initial: "consistent (initial c p cf)"
  by (simp add: consistent_def initial_def)

lemma consistent_mount: "consistent (mount c p cf)"
  by (simp add: mount_def consistent_effects consistent_initial)

lemma elapse_idle:
  "list_all (\<lambda>t. now s + d < due t) (timers s) \<Longrightarrow> elapse d s = s\<lparr>now := now s + d\<rparr>"
proof -
  assume a: "list_all (\<lambda>t. now s + d < due t) (timers s)"
  then have 1: "filter (\<lambda>x. due x \<le> now s + d) (timers s) = []"
    by (auto simp: list_all_iff filter_empty_conv)
  from a have 2: "filter (\<lambda>x. \<not> due x \<le> now s + d) (timers s) = timers s"
    by (auto simp: list_all_iff filter_id_conv)
  show ?thesis by (simp add: elapse_def Let_def 1 2)
qed

lemma elapse_one:
  "timers s = [x] \<Longrightarrow> due x \<le> now s + d \<Longrightarrow>
     elapse d s = (fireTimer (s\<lparr>timers := []\<rparr>) x)\<lparr>now := now s + d\<rparr>"
  by (simp add: elapse_def Let_def)

lemma handleChange_open:
  assumes "openFilePath s = Some q" "q \<noteq> []"
  shows "timers (handleChange v s) =
           filter (\<lambda>t. Some (handle t) \<noteq> saveTimerRef s) (timers s)
           @ [\<lparr>handle = nextHandle s, due = now s + 800, callback = SaveCallback (Some q) v\<rparr>]"
    and "saveTimerRef (handleChange v s) = Some (nextHandle s)"
    and "calls (handleChange v s) = calls s"
    and "fileContent (handleChange v s) = v"
    and "saveStatus (handleChange v s) = Some Dirty"
    and "openFilePath (handleChange v s) = Some q"
    and "now (handleChange v s) = now s"
    and "pending (handleChange v s) = pending s"
    and "nextRequest (handleChange v s) = nextRequest s"
  using assms by (auto simp: handleChange_def Let_def prim_defs split: option.splits)

lemma handleChange_closed:
  assumes "\<not> truthy (openFilePath s)"
  shows "timers (handleChange v s) = filter (\<lambda>t. Some (handle t) \<noteq> saveTimerRef s) (timers s)"
    and "saveTimerRef (handleChange v s) = saveTimerRef s"
    and "calls (handleChange v s) = calls s"
    and "fileContent (handleChange v s) = v"
    and "saveStatus (handleChange v s) = Some Dirty"
    and "pending (handleChange v s) = pending s"
  using assms by (auto simp: handleChange_def Let_def prim_defs split: option.splits)

lemma quiet_filter:
  assumes "consistent s" "quiet s"
  shows "filter (\<lambda>t. Some (handle t) \<noteq> saveTimerRef s) (timers s) = []"
  using assms by (auto simp: consistent_def quiet_def list_all_iff filter_empty_conv)

lemma quiet_elapse: "quiet s \<Longrightarrow> quiet (elapse d s)"
  by (auto simp: quiet_def list_all_iff)

lemma quiet_handleChange: "consistent s \<Longrightarrow> quiet s \<Longrightarrow> openFilePath s = Some q \<Longrightarrow> q \<noteq> [] \<Longrightarrow> quiet (handleChange v s)"
  by (auto simp: quiet_def handleChange_open(1) list_all_iff)

lemma edits_snoc: "edits (es @ [(gap, v)]) s = handleChange v (elapse gap (edits es s))"
  by (induction es arbitrary: s) auto

lemma edits_inv:
  "consistent s \<Longrightarrow> quiet s \<Longrightarrow> openFilePath s = Some q \<Longrightarrow> q \<noteq> [] \<Longrightarrow>
     consistent (edits es s) \<and> quiet (edits es s) \<and> openFilePath (edits es s) = Some q"
proof (induction es arbitrary: s)
  case Nil
  then show ?case by simp
next
  case (Cons e es)
  obtain gap v where e: "e = (gap, v)" by (cases e)
  let ?s = "handleChange v (elapse gap s)"
  have "consistent ?s" using Cons.prems by (simp add: consistent_handleChange consistent_elapse)
  moreover have "quiet ?s" using Cons.prems
    by (intro quiet_handleChange[of _ q]) (simp_all add: consistent_elapse quiet_elapse)
  moreover have "openFilePath ?s = Some q" using Cons.prems by (simp add: handleChange_open)
  ultimately show ?case using Cons.IH[of ?s] Cons.prems(4) by (simp add: e)
qed

lemma fresh_lookup:
  "consistent s \<Longrightarrow> map_of (pending s @ [(nextRequest s, r)] @ rest) (nextRequest s) = Some r"
proof -
  assume "consistent s"
  then have "nextRequest s \<notin> fst ` set (pending s)"
    by (auto simp: consistent_def list_all_iff)
  then have "map_of (pending s) (nextRequest s) = None" by (simp add: map_of_eq_None_iff)
  then show ?thesis by (simp add: map_add_def)
qed

lemma concat_writeOf_filter:
  "concat (map writeOf xs) = concat (map writeOf (filter (\<lambda>x. isSave (callback x)) xs))"
proof (induction xs)
  case Nil
  then show ?case by simp
next
  case (Cons x xs)
  then show ?case by (cases "callback x") simp_all
qed

lemma calls_elapse_saves:
  "calls (elapse d s) =
     calls s @ concat (map writeOf (sort_key due
        (filter (\<lambda>x. isSave (callback x)) (filter (\<lambda>x. due x \<le> now s + d) (timers s)))))"
  by (simp only: elapse_keeps(9) filter_sort[symmetric] concat_writeOf_filter[symmetric])

lemma calls_elapse_nosave:
  "list_all (\<lambda>t. \<not> isSave (callback t)) (timers s) \<Longrightarrow> calls (elapse d s) = calls s"
proof -
  assume "list_all (\<lambda>t. \<not> isSave (callback t)) (timers s)"
  then have "filter (\<lambda>x. isSave (callback x)) (filter (\<lambda>x. due x \<le> now s + d) (timers s)) = []"
    by (auto simp: list_all_iff filter_empty_conv)
  then show ?thesis by (simp only: calls_elapse_saves) simp
qed

lemma unreferenced_nosave:
  "consistent s \<Longrightarrow>
     list_all (\<lambda>t. \<not> isSave (callback t)) (filter (\<lambda>t. Some (handle t) \<noteq> saveTimerRef s) (timers s))"
  by (auto simp: consistent_def list_all_iff)

lemma loadedPanel_eq:
  "loadedPanel =
     \<lparr>cwd = Some ''/repo'', openFilePath = Some ''/repo/file.ts'', changedFiles = [], tree = [],
      treeLoading = True, fileContent = ''file content'', savedContent = ''file content'',
      fileLoading = False, saveTimerRef = None, saveStatus = None, diffMode = False,
      diffContent = [], diffLoading = False, now = 0, nextHandle = 1, timers = [],
      nextRequest = 3, pending = [(1, GetFileTree (Some ''/repo''))],
      calls = [GetFileTree (Some ''/repo''), ReadFile (Some ''/repo/file.ts'')]\<rparr>"
  by (simp add: loadedPanel_def panel_defs)

lemma loadedPanel_ok:
  "consistent loadedPanel" "quiet loadedPanel" "openFilePath loadedPanel = Some ''/repo/file.ts''"
  by (simp_all add: loadedPanel_eq consistent_def quiet_def)

lemma diffPanel_eq:
  "diffPanel =
     \<lparr>cwd = Some ''/repo'', openFilePath = Some ''/repo/file.ts'',
      changedFiles = [''/repo/file.ts'', ''/repo/src/app.ts''], tree = [],
      treeLoading = True, fileContent = ''file content'', savedContent = ''file content'',
      fileLoading = False, saveTimerRef = None, saveStatus = None, diffMode = True,
      diffContent = [], diffLoading = True, now = 0, nextHandle = 1, timers = [],
      nextRequest = 4,
      pending = [(1, GetFileTree (Some ''/repo'')), (3, GetFileDiff (Some ''/repo/file.ts''))],
      calls = [GetFileTree (Some ''/repo''), ReadFile (Some ''/repo/file.ts''),
               GetFileDiff (Some ''/repo/file.ts'')]\<rparr>"
  by (simp add: diffPanel_def panel_defs)

lemma savingPanel_eq:
  "savingPanel =
     \<lparr>cwd = Some ''/repo'', openFilePath = Some ''/repo/file.ts'', changedFiles = [], tree = [],
      treeLoading = True, fileContent = ''x'', savedContent = ''file content'',
      fileLoading = False, saveTimerRef = Some 1, saveStatus = Some Saving, diffMode = False,
      diffContent = [], diffLoading = False, now = 800, nextHandle = 2, timers = [],
      nextRequest = 4,
      pending = [(1, GetFileTree (Some ''/repo'')), (3, WriteFile (Some ''/repo/file.ts'') ''x'')],
      calls = [GetFileTree (Some ''/repo''), ReadFile (Some ''/repo/file.ts''),
               WriteFile (Some ''/repo/file.ts'') ''x'']\<rparr>"
  by (simp add: savingPanel_def loadedPanel_eq panel_defs)

subsection \<open>The debounced save\<close>

lemma saves_after_edit:
  assumes "consistent x" "openFilePath x = Some q" "q \<noteq> []"
  shows "filter (\<lambda>t. isSave (callback t)) (timers (handleChange w x)) =
           [\<lparr>handle = nextHandle x, due = now x + 800, callback = SaveCallback (Some q) w\<rparr>]"
proof -
  have "filter (\<lambda>t. isSave (callback t)) (filter (\<lambda>t. Some (handle t) \<noteq> saveTimerRef x) (timers x)) = []"
    using unreferenced_nosave[OF assms(1)] by (auto simp: list_all_iff filter_empty_conv)
  then show ?thesis by (simp add: handleChange_open(1)[OF assms(2,3)])
qed

lemma calls_elapse_one_save:
  assumes "filter (\<lambda>t. isSave (callback t)) (timers x) = [t]"
  shows "calls (elapse d x) = calls x @ (if due t \<le> now x + d then writeOf t else [])"
proof -
  have "filter (\<lambda>t. isSave (callback t)) (filter (\<lambda>t. due t \<le> now x + d) (timers x))
          = filter (\<lambda>t. due t \<le> now x + d) (filter (\<lambda>t. isSave (callback t)) (timers x))"
    by (simp add: conj_commute)
  also have "\<dots> = (if due t \<le> now x + d then [t] else [])" by (simp add: assms)
  finally show ?thesis by (simp only: calls_elapse_saves) simp
qed

lemma armed_edit:
  assumes "consistent x" "openFilePath x = Some p" "p \<noteq> []"
  shows "armed p (handleChange v x)"
  unfolding armed_def
  using consistent_handleChange[OF assms(1)] assms(3)
  by (simp add: saves_after_edit[OF assms] handleChange_open(6,7)[OF assms(2,3)])

lemma armed_step:
  assumes a: "armed p s" and g: "g < 800"
  shows "armed p (handleChange v (elapse g s))" and "calls (handleChange v (elapse g s)) = calls s"
proof -
  from a obtain t where t: "filter (\<lambda>t. isSave (callback t)) (timers s) = [t]" "due t = now s + 800"
    by (auto simp: armed_def split: list.splits)
  from a have c: "consistent s" and o: "openFilePath s = Some p" and p: "p \<noteq> []"
    by (simp_all add: armed_def)
  let ?s = "elapse g s"
  have c': "consistent ?s" using c by (rule consistent_elapse)
  have o': "openFilePath ?s = Some p" using o by simp
  show "armed p (handleChange v (elapse g s))" by (rule armed_edit[OF c' o' p])
  have "calls ?s = calls s" using g by (simp only: calls_elapse_one_save[OF t(1)] t(2)) simp
  then show "calls (handleChange v (elapse g s)) = calls s"
    by (simp only: handleChange_open(3)[OF o' p])
qed

lemma burst_no_calls:
  "armed p s \<Longrightarrow> list_all (\<lambda>e. fst e < 800) burst \<Longrightarrow> calls (edits burst s) = calls s"
proof (induction burst arbitrary: s)
  case Nil
  then show ?case by simp
next
  case (Cons e burst)
  obtain g v where e: "e = (g, v)" by (cases e)
  from Cons.prems e have g: "g < 800" and m: "list_all (\<lambda>e. fst e < 800) burst" by simp_all
  from armed_step[OF Cons.prems(1) g, of v] Cons.IH[OF _ m, of "handleChange v (elapse g s)"]
  show ?case by (simp add: e)
qed

lemma edits_open:
  "consistent s \<Longrightarrow> openFilePath s = Some q \<Longrightarrow> q \<noteq> [] \<Longrightarrow>
     consistent (edits es s) \<and> openFilePath (edits es s) = Some q"
proof (induction es arbitrary: s)
  case Nil
  then show ?case by simp
next
  case (Cons e es)
  obtain gap v where e: "e = (gap, v)" by (cases e)
  let ?s = "handleChange v (elapse gap s)"
  have "consistent ?s" using Cons.prems by (simp add: consistent_handleChange consistent_elapse)
  moreover have "openFilePath ?s = Some q" using Cons.prems by (simp add: handleChange_open)
  ultimately show ?case using Cons.IH[of ?s] Cons.prems(3) by (simp add: e)
qed

lemma save_exactly_once:
  fixes s :: Panel and p v :: string and es :: "(nat \<times> string) list" and gap :: nat
  assumes c: "consistent s" and o: "openFilePath s = Some p" and p: "p \<noteq> []"
  defines "s1 \<equiv> edits (es @ [(gap, v)]) s"
  shows "(\<exists>h. saveTimerRef s1 = Some h
            \<and> filter (\<lambda>t. isSave (callback t)) (timers s1)
                = [\<lparr>handle = h, due = now s1 + 800, callback = SaveCallback (Some p) v\<rparr>])
       \<and> fileContent s1 = v \<and> saveStatus s1 = Some Dirty
       \<and> (\<forall>burst. list_all (\<lambda>e. fst e < 800) burst \<longrightarrow> calls (edits burst s1) = calls s1)
       \<and> (\<forall>d<800. calls (elapse d s1) = calls s1)
       \<and> (\<forall>d\<ge>800. calls (elapse d s1) = calls s1 @ [WriteFile (Some p) v])
       \<and> (\<forall>c. calls (elapse 800 (s1\<lparr>fileContent := c\<rparr>)) = calls s1 @ [WriteFile (Some p) v])"
proof -
  define s0 where "s0 = elapse gap (edits es s)"
  define T where "T = \<lparr>handle = nextHandle s0, due = now s0 + 800, callback = SaveCallback (Some p) v\<rparr>"
  from edits_open[OF c o p, of es]
  have inv0: "consistent s0" "openFilePath s0 = Some p"
    by (simp_all add: s0_def consistent_elapse)
  have s1: "s1 = handleChange v s0" by (simp add: s1_def s0_def edits_snoc)
  have t1: "filter (\<lambda>t. isSave (callback t)) (timers s1) = [T]"
    unfolding s1 T_def by (rule saves_after_edit[OF inv0 p])
  have r1: "saveTimerRef s1 = Some (nextHandle s0)"
    unfolding s1 by (rule handleChange_open(2)[OF inv0(2) p])
  have n1: "now s1 = now s0" unfolding s1 by (rule handleChange_open(7)[OF inv0(2) p])
  have f1: "fileContent s1 = v" unfolding s1 by (rule handleChange_open(4)[OF inv0(2) p])
  have d1: "saveStatus s1 = Some Dirty" unfolding s1 by (rule handleChange_open(5)[OF inv0(2) p])
  have dueT: "due T = now s1 + 800" by (simp add: T_def n1)
  have wT: "writeOf T = [WriteFile (Some p) v]" by (simp add: T_def)
  have A: "\<exists>h. saveTimerRef s1 = Some h
            \<and> filter (\<lambda>t. isSave (callback t)) (timers s1)
                = [\<lparr>handle = h, due = now s1 + 800, callback = SaveCallback (Some p) v\<rparr>]"
    using t1 r1 by (simp add: T_def n1)
  have "armed p s1" unfolding s1 by (rule armed_edit[OF inv0 p])
  then have H: "\<forall>burst. list_all (\<lambda>e. fst e < 800) burst \<longrightarrow> calls (edits burst s1) = calls s1"
    using burst_no_calls by blast
  have B: "\<forall>d<800. calls (elapse d s1) = calls s1"
    by (simp only: calls_elapse_one_save[OF t1] dueT) simp
  have C: "\<forall>d\<ge>800. calls (elapse d s1) = calls s1 @ [WriteFile (Some p) v]"
    by (simp only: calls_elapse_one_save[OF t1] dueT wT) simp
  have D: "\<forall>c. calls (elapse 800 (s1\<lparr>fileContent := c\<rparr>)) = calls s1 @ [WriteFile (Some p) v]"
  proof
    fix c
    have "filter (\<lambda>t. isSave (callback t)) (timers (s1\<lparr>fileContent := c\<rparr>)) = [T]"
      using t1 by simp
    from calls_elapse_one_save[OF this, of 800] show
      "calls (elapse 800 (s1\<lparr>fileContent := c\<rparr>)) = calls s1 @ [WriteFile (Some p) v]"
      by (simp add: dueT wT del: writeOf.simps)
  qed
  from A f1 d1 H B C D show ?thesis by blast
qed

lemma save_status_trace:
  fixes s :: Panel and p v :: string and es :: "(nat \<times> string) list" and gap latency :: nat
  assumes c: "consistent s" and o: "openFilePath s = Some p" and p: "p \<noteq> []" and q: "quiet s"
  defines "s1 \<equiv> edits (es @ [(gap, v)]) s"
  defines "s2 \<equiv> elapse 800 s1"
  defines "s3 \<equiv> writeResolved (nextRequest s1) True (elapse latency s2)"
  shows "(\<exists>h. saveTimerRef s1 = Some h
            \<and> timers s1 = [\<lparr>handle = h, due = now s1 + 800, callback = SaveCallback (Some p) v\<rparr>])
       \<and> fileContent s1 = v \<and> saveStatus s1 = Some Dirty
       \<and> (\<forall>d<800. calls (elapse d s1) = calls s1 \<and> saveStatus (elapse d s1) = Some Dirty)
       \<and> calls s2 = calls s1 @ [WriteFile (Some p) v] \<and> saveStatus s2 = Some Saving
       \<and> (\<forall>c. calls (elapse 800 (s1\<lparr>fileContent := c\<rparr>)) = calls s1 @ [WriteFile (Some p) v])
       \<and> saveStatus (elapse latency s2) = Some Saving
       \<and> saveStatus s3 = Some Saved \<and> savedContent s3 = v
       \<and> (\<forall>d<2000. saveStatus (elapse d s3) = Some Saved)
       \<and> saveStatus (elapse 2000 s3) = None
       \<and> (\<forall>d. calls (elapse d s3) = calls s1 @ [WriteFile (Some p) v])"
proof -
  define s0 where "s0 = elapse gap (edits es s)"
  define T where "T = \<lparr>handle = nextHandle s0, due = now s0 + 800, callback = SaveCallback (Some p) v\<rparr>"
  define W where "W = WriteFile (Some p) v"
  from edits_inv[OF c q o p, of es]
  have inv0: "consistent s0" "quiet s0" "openFilePath s0 = Some p"
    by (simp_all add: s0_def consistent_elapse quiet_elapse)
  have s1: "s1 = handleChange v s0" by (simp add: s1_def s0_def edits_snoc)
  have c1: "consistent s1" unfolding s1 using inv0(1) by (rule consistent_handleChange)
  have t1: "timers s1 = [T]"
    unfolding s1 T_def by (simp add: handleChange_open(1)[OF inv0(3) p] quiet_filter[OF inv0(1,2)])
  have r1: "saveTimerRef s1 = Some (nextHandle s0)"
    unfolding s1 by (rule handleChange_open(2)[OF inv0(3) p])
  have n1: "now s1 = now s0" unfolding s1 by (rule handleChange_open(7)[OF inv0(3) p])
  have f1: "fileContent s1 = v" unfolding s1 by (rule handleChange_open(4)[OF inv0(3) p])
  have d1: "saveStatus s1 = Some Dirty" unfolding s1 by (rule handleChange_open(5)[OF inv0(3) p])
  have dueT: "due T = now s1 + 800" by (simp add: T_def n1)
  have A: "\<exists>h. saveTimerRef s1 = Some h
            \<and> timers s1 = [\<lparr>handle = h, due = now s1 + 800, callback = SaveCallback (Some p) v\<rparr>]"
    using t1 r1 by (simp add: T_def n1)
  have B: "\<forall>d<800. calls (elapse d s1) = calls s1 \<and> saveStatus (elapse d s1) = Some Dirty"
  proof (intro allI impI)
    fix d :: nat assume "d < 800"
    then have "list_all (\<lambda>t. now s1 + d < due t) (timers s1)" by (simp add: t1 dueT)
    then show "calls (elapse d s1) = calls s1 \<and> saveStatus (elapse d s1) = Some Dirty"
      by (simp add: elapse_idle d1)
  qed
  have s2: "s2 = (fireTimer (s1\<lparr>timers := []\<rparr>) T)\<lparr>now := now s1 + 800\<rparr>"
    unfolding s2_def by (rule elapse_one[OF t1]) (simp add: dueT)
  have cT: "callback T = SaveCallback (Some p) v" by (simp add: T_def)
  have calls2: "calls s2 = calls s1 @ [W]" by (simp add: s2 cT W_def)
  have st2: "saveStatus s2 = Some Saving" by (simp add: s2 fireTimer_def cT call_def)
  have t2: "timers s2 = []" by (simp add: s2)
  have pend2: "pending s2 = pending s1 @ [(nextRequest s1, W)]"
    by (simp add: s2 fireTimer_def cT call_def W_def)
  have C: "\<forall>c. calls (elapse 800 (s1\<lparr>fileContent := c\<rparr>)) = calls s1 @ [WriteFile (Some p) v]"
    by (simp add: t1 dueT cT del: writeOf.simps) (simp add: cT)
  define s2' where "s2' = elapse latency s2"
  have s2': "s2' = s2\<lparr>now := now s2 + latency\<rparr>"
    unfolding s2'_def by (rule elapse_idle) (simp add: t2)
  have st2': "saveStatus s2' = Some Saving" by (simp add: s2' st2)
  have look: "map_of (pending s2') (nextRequest s1) = Some W"
    using fresh_lookup[OF c1, of W "[]"] by (simp add: s2' pend2)
  have s3: "s3 = setTimeout ClearSavedCallback 2000
                   ((settle (nextRequest s1) s2')\<lparr>savedContent := v, saveStatus := Some Saved\<rparr>)"
    unfolding s3_def s2'_def[symmetric] by (simp add: writeResolved_def look W_def)
  define Tc where "Tc = \<lparr>handle = nextHandle s2', due = now s2' + 2000, callback = ClearSavedCallback\<rparr>"
  have t3: "timers s3 = [Tc]" by (simp add: s3 setTimeout_def settle_def Tc_def s2' t2)
  have n3: "now s3 = now s2'" by (simp add: s3 setTimeout_def settle_def)
  have st3: "saveStatus s3 = Some Saved" by (simp add: s3 setTimeout_def settle_def)
  have sv3: "savedContent s3 = v" by (simp add: s3 setTimeout_def settle_def)
  have calls3: "calls s3 = calls s1 @ [W]" by (simp add: s3 setTimeout_def settle_def s2' calls2)
  have D: "\<forall>d<2000. saveStatus (elapse d s3) = Some Saved"
  proof (intro allI impI)
    fix d :: nat assume "d < 2000"
    then have "list_all (\<lambda>t. now s3 + d < due t) (timers s3)" by (simp add: t3 Tc_def n3)
    then show "saveStatus (elapse d s3) = Some Saved" by (simp add: elapse_idle st3)
  qed
  have "elapse 2000 s3 = (fireTimer (s3\<lparr>timers := []\<rparr>) Tc)\<lparr>now := now s3 + 2000\<rparr>"
    by (rule elapse_one[OF t3]) (simp add: Tc_def n3)
  then have E: "saveStatus (elapse 2000 s3) = None" by (simp add: fireTimer_def Tc_def)
  have F: "\<forall>d. calls (elapse d s3) = calls s1 @ [WriteFile (Some p) v]"
    by (simp add: t3 calls3 W_def Tc_def)
  from A f1 d1 B calls2 st2 C st2' st3 sv3 D E F show ?thesis
    unfolding W_def s2'_def by blast
qed

text \<open>
  C1. While a file is open (its path is truthy), every edit clears the timer that
  \<^verbatim>\<open>saveTimerRef\<close> holds and arms a new one, due 800 ms later, that carries the path and the
  value of that edit. After any sequence of edits with any pauses, the last one setting
  the value \<open>v\<close>, exactly one save timer is pending, the one of the last edit; the buffer
  is \<open>v\<close> and the status is dirty; further edits that each come less than 800 ms after
  the one before issue no call. With no further edit, no call is made before 800 ms have
  passed, and from 800 ms on exactly one \<^verbatim>\<open>writeFile\<close> call has been added, for the open
  path and with \<open>v\<close>, whatever the buffer holds by then. If moreover no timer of an
  earlier successful save is pending when the edits start, and no earlier write settles
  meanwhile, the status stays dirty for the 800 ms, is saving from then until the write
  settles, is saved when the write succeeds (the saved content is then \<open>v\<close>), stays
  saved for less than 2000 ms and is none at 2000 ms; no other call is made.
\<close>

theorem debounced_save:
  fixes s :: Panel and p v :: string and es :: "(nat \<times> string) list" and gap latency :: nat
  assumes c: "consistent s" and o: "openFilePath s = Some p" and p: "p \<noteq> []"
  defines "s1 \<equiv> edits (es @ [(gap, v)]) s"
  defines "s2 \<equiv> elapse 800 s1"
  defines "s3 \<equiv> writeResolved (nextRequest s1) True (elapse latency s2)"
  shows "(\<forall>x w q. openFilePath x = Some q \<and> q \<noteq> [] \<longrightarrow>
            timers (handleChange w x) =
              filter (\<lambda>t. Some (handle t) \<noteq> saveTimerRef x) (timers x)
              @ [\<lparr>handle = nextHandle x, due = now x + 800, callback = SaveCallback (Some q) w\<rparr>]
            \<and> saveTimerRef (handleChange w x) = Some (nextHandle x))
       \<and> (\<exists>h. saveTimerRef s1 = Some h
            \<and> filter (\<lambda>t. isSave (callback t)) (timers s1)
                = [\<lparr>handle = h, due = now s1 + 800, callback = SaveCallback (Some p) v\<rparr>])
       \<and> fileContent s1 = v \<and> saveStatus s1 = Some Dirty
       \<and> (\<forall>burst. list_all (\<lambda>e. fst e < 800) burst \<longrightarrow> calls (edits burst s1) = calls s1)
       \<and> (\<forall>d<800. calls (elapse d s1) = calls s1)
       \<and> (\<forall>d\<ge>800. calls (elapse d s1) = calls s1 @ [WriteFile (Some p) v])
       \<and> (\<forall>c. calls (elapse 800 (s1\<lparr>fileContent := c\<rparr>)) = calls s1 @ [WriteFile (Some p) v])
       \<and> (quiet s \<longrightarrow>
             (\<forall>d<800. saveStatus (elapse d s1) = Some Dirty)
           \<and> saveStatus s2 = Some Saving
           \<and> saveStatus (elapse latency s2) = Some Saving
           \<and> saveStatus s3 = Some Saved \<and> savedContent s3 = v
           \<and> (\<forall>d<2000. saveStatus (elapse d s3) = Some Saved)
           \<and> saveStatus (elapse 2000 s3) = None
           \<and> (\<forall>d. calls (elapse d s3) = calls s1 @ [WriteFile (Some p) v]))"
proof -
  have G: "\<forall>x w q. openFilePath x = Some q \<and> q \<noteq> [] \<longrightarrow>
            timers (handleChange w x) =
              filter (\<lambda>t. Some (handle t) \<noteq> saveTimerRef x) (timers x)
              @ [\<lparr>handle = nextHandle x, due = now x + 800, callback = SaveCallback (Some q) w\<rparr>]
            \<and> saveTimerRef (handleChange w x) = Some (nextHandle x)"
    using handleChange_open(1,2) by blast
  note once = save_exactly_once[OF c o p, of es gap v, folded s1_def]
  have Q: "(\<forall>d<800. saveStatus (elapse d s1) = Some Dirty)
           \<and> saveStatus s2 = Some Saving
           \<and> saveStatus (elapse latency s2) = Some Saving
           \<and> saveStatus s3 = Some Saved \<and> savedContent s3 = v
           \<and> (\<forall>d<2000. saveStatus (elapse d s3) = Some Saved)
           \<and> saveStatus (elapse 2000 s3) = None
           \<and> (\<forall>d. calls (elapse d s3) = calls s1 @ [WriteFile (Some p) v])" if q: "quiet s"
    using save_status_trace[OF c o p q, of es gap v latency] unfolding s3_def s2_def s1_def by blast
  from G once Q show ?thesis by blast
qed

theorem debounced_save_witness:
  "consistent loadedPanel \<and> quiet loadedPanel
   \<and> openFilePath loadedPanel = Some ''/repo/file.ts''
   \<and> calls (elapse 800 (edits [(0, ''a''), (100, ''ab''), (200, ''abc'')] loadedPanel))
        = [GetFileTree (Some ''/repo''), ReadFile (Some ''/repo/file.ts''),
           WriteFile (Some ''/repo/file.ts'') ''abc'']
   \<and> saveStatus (edits [(0, ''a''), (100, ''ab''), (200, ''abc'')] loadedPanel) = Some Dirty
   \<and> saveStatus (elapse 799 (edits [(0, ''a''), (100, ''ab''), (200, ''abc'')] loadedPanel)) = Some Dirty
   \<and> saveStatus (elapse 800 (edits [(0, ''a''), (100, ''ab''), (200, ''abc'')] loadedPanel)) = Some Saving
   \<and> saveStatus (writeResolved 3 True (elapse 30 (elapse 800
          (edits [(0, ''a''), (100, ''ab''), (200, ''abc'')] loadedPanel)))) = Some Saved
   \<and> saveStatus (elapse 1999 (writeResolved 3 True (elapse 30 (elapse 800
          (edits [(0, ''a''), (100, ''ab''), (200, ''abc'')] loadedPanel))))) = Some Saved
   \<and> saveStatus (elapse 2000 (writeResolved 3 True (elapse 30 (elapse 800
          (edits [(0, ''a''), (100, ''ab''), (200, ''abc'')] loadedPanel))))) = None"
proof -
  let ?s1 = "edits [(0, ''a''), (100, ''ab''), (200, ''abc'')] loadedPanel"
  have n: "nextRequest ?s1 = 3"
    by (simp add: loadedPanel_eq panel_defs)
  have k: "calls ?s1 = [GetFileTree (Some ''/repo''), ReadFile (Some ''/repo/file.ts'')]"
    by (simp add: loadedPanel_eq panel_defs)
  have ne: "''/repo/file.ts'' \<noteq> []" by simp
  have e: "[(0, ''a''), (100, ''ab'')] @ [(200, ''abc'')] = [(0, ''a''), (100, ''ab''), (200, ''abc'')]"
    by simp
  note th = debounced_save[OF loadedPanel_ok(1) loadedPanel_ok(3) ne,
         of "[(0, ''a''), (100, ''ab'')]" 200 "''abc''" 30, unfolded e n k]
  from th have s: "saveStatus ?s1 = Some Dirty" by blast
  from th have "\<forall>d\<ge>800. calls (elapse d ?s1)
        = [GetFileTree (Some ''/repo''), ReadFile (Some ''/repo/file.ts'')] @ [WriteFile (Some ''/repo/file.ts'') ''abc'']"
    by blast
  then have w: "calls (elapse 800 ?s1)
        = [GetFileTree (Some ''/repo''), ReadFile (Some ''/repo/file.ts''), WriteFile (Some ''/repo/file.ts'') ''abc'']"
    by simp
  from th loadedPanel_ok(2)
  have B: "\<forall>d<800. saveStatus (elapse d ?s1) = Some Dirty"
    and S: "saveStatus (elapse 800 ?s1) = Some Saving"
    and V: "saveStatus (writeResolved 3 True (elapse 30 (elapse 800 ?s1))) = Some Saved"
    and D: "\<forall>d<2000. saveStatus (elapse d (writeResolved 3 True (elapse 30 (elapse 800 ?s1)))) = Some Saved"
    and N: "saveStatus (elapse 2000 (writeResolved 3 True (elapse 30 (elapse 800 ?s1)))) = None"
    by blast+
  from B have b: "saveStatus (elapse 799 ?s1) = Some Dirty" by simp
  from D have d: "saveStatus (elapse 1999 (writeResolved 3 True (elapse 30 (elapse 800 ?s1)))) = Some Saved"
    by simp
  from loadedPanel_ok w s b S V d N show ?thesis by (intro conjI)
qed

text \<open>
  The timer that a successful save arms is never cleared. With a second edit 1900 ms after
  the first save succeeded, the status is none 100 ms after the second save succeeded:
  the timer of the first save fires. With a second edit 1950 ms after, that timer sets the
  status to none while the second write is still in flight.
\<close>

theorem debounced_save_counterexample:
  "openFilePath loadedPanel = Some ''/repo/file.ts''
   \<and> calls (run [Edit ''a'', Elapse 800, WriteResolved 3 True, Elapse 1100,
                  Edit ''ab'', Elapse 800] loadedPanel)
       = [GetFileTree (Some ''/repo''), ReadFile (Some ''/repo/file.ts''),
          WriteFile (Some ''/repo/file.ts'') ''a'', WriteFile (Some ''/repo/file.ts'') ''ab'']
   \<and> saveStatus (run [Edit ''a'', Elapse 800, WriteResolved 3 True, Elapse 1100,
                       Edit ''ab'', Elapse 800] loadedPanel) = Some Saving
   \<and> saveStatus (run [Edit ''a'', Elapse 800, WriteResolved 3 True, Elapse 1100,
                       Edit ''ab'', Elapse 800, WriteResolved 4 True] loadedPanel) = Some Saved
   \<and> saveStatus (run [Edit ''a'', Elapse 800, WriteResolved 3 True, Elapse 1100,
                       Edit ''ab'', Elapse 800, WriteResolved 4 True, Elapse 100] loadedPanel) = None
   \<and> saveStatus (run [Edit ''a'', Elapse 800, WriteResolved 3 True, Elapse 1150,
                       Edit ''ab'', Elapse 800] loadedPanel) = Some Saving
   \<and> saveStatus (run [Edit ''a'', Elapse 800, WriteResolved 3 True, Elapse 1150,
                       Edit ''ab'', Elapse 800, Elapse 50] loadedPanel) = None
   \<and> pending (run [Edit ''a'', Elapse 800, WriteResolved 3 True, Elapse 1150,
                    Edit ''ab'', Elapse 800, Elapse 50] loadedPanel)
       = [(1, GetFileTree (Some ''/repo'')), (4, WriteFile (Some ''/repo/file.ts'') ''ab'')]"
  by (simp add: run_def loadedPanel_eq panel_defs)

subsection \<open>A failed save\<close>

lemma writeResolved_failed:
  assumes "map_of (pending s) i = Some (WriteFile p v)"
  shows "writeResolved i False s = (settle i s)\<lparr>saveStatus := Some Dirty\<rparr>"
  using assms by (simp add: writeResolved_def)

text \<open>
  C6. When a \<^verbatim>\<open>writeFile\<close> call in flight fails, the status becomes dirty; the buffer, the
  saved content, the timers and the calls made are as before. Nothing is retried: as time
  passes the panel makes the calls it would have made without the failure, and none at all
  when no save timer is pending. The next edit arms the debounce again, and 800 ms later
  the buffer of that edit is written.
\<close>

theorem write_failure_keeps_buffer:
  fixes s :: Panel
  assumes c: "consistent s" and i: "map_of (pending s) i = Some (WriteFile p v)"
  defines "s' \<equiv> writeResolved i False s"
  shows "saveStatus s' = Some Dirty
       \<and> fileContent s' = fileContent s \<and> savedContent s' = savedContent s
       \<and> timers s' = timers s \<and> saveTimerRef s' = saveTimerRef s \<and> calls s' = calls s
       \<and> (\<forall>d. calls (elapse d s') = calls (elapse d s))
       \<and> (list_all (\<lambda>t. \<not> isSave (callback t)) (timers s) \<longrightarrow> (\<forall>d. calls (elapse d s') = calls s))
       \<and> (\<forall>q w. openFilePath s = Some q \<and> q \<noteq> [] \<longrightarrow>
             calls (elapse 800 (handleChange w s')) = calls s @ [WriteFile (Some q) w])"
proof -
  have s': "s' = (settle i s)\<lparr>saveStatus := Some Dirty\<rparr>"
    unfolding s'_def by (rule writeResolved_failed[OF i])
  have 1: "saveStatus s' = Some Dirty" "fileContent s' = fileContent s"
    "savedContent s' = savedContent s" "timers s' = timers s" "saveTimerRef s' = saveTimerRef s"
    "calls s' = calls s" "now s' = now s" "openFilePath s' = openFilePath s" "nextHandle s' = nextHandle s"
    by (simp_all add: s' settle_def)
  have 2: "\<forall>d. calls (elapse d s') = calls (elapse d s)"
    by (simp add: 1 del: writeOf.simps)
  have 3: "list_all (\<lambda>t. \<not> isSave (callback t)) (timers s) \<longrightarrow> (\<forall>d. calls (elapse d s') = calls s)"
  proof (intro impI allI)
    fix d assume "list_all (\<lambda>t. \<not> isSave (callback t)) (timers s)"
    then have "list_all (\<lambda>t. \<not> isSave (callback t)) (timers s')" by (simp only: 1)
    from calls_elapse_nosave[OF this] show "calls (elapse d s') = calls s" by (simp only: 1)
  qed
  have 4: "calls (elapse 800 (handleChange w s')) = calls s @ [WriteFile (Some q) w]"
    if o: "openFilePath s = Some q" and q: "q \<noteq> []" for q w
  proof -
    let ?T = "\<lparr>handle = nextHandle s, due = now s + 800, callback = SaveCallback (Some q) w\<rparr>"
    have o': "openFilePath s' = Some q" by (simp add: 1 o)
    have t: "timers (handleChange w s') = filter (\<lambda>t. Some (handle t) \<noteq> saveTimerRef s) (timers s) @ [?T]"
      by (simp add: handleChange_open(1)[OF o' q] 1)
    have "filter (\<lambda>x. isSave (callback x)) (filter (\<lambda>t. Some (handle t) \<noteq> saveTimerRef s) (timers s)) = []"
      using unreferenced_nosave[OF c] by (auto simp: list_all_iff filter_empty_conv)
    then have "filter (\<lambda>x. isSave (callback x)) (filter (\<lambda>x. due x \<le> now s + 800) (timers (handleChange w s'))) = [?T]"
      unfolding t by (simp add: filter_empty_conv)
    then show ?thesis
      by (simp only: calls_elapse_saves handleChange_open(3,7)[OF o' q] 1) simp
  qed
  from 1(1-6) 2 3 4 show ?thesis by blast
qed

theorem write_failure_keeps_buffer_witness:
  "consistent savingPanel
   \<and> map_of (pending savingPanel) 3 = Some (WriteFile (Some ''/repo/file.ts'') ''x'')
   \<and> saveStatus (writeResolved 3 False savingPanel) = Some Dirty
   \<and> fileContent (writeResolved 3 False savingPanel) = ''x''
   \<and> savedContent (writeResolved 3 False savingPanel) = ''file content''
   \<and> timers (writeResolved 3 False savingPanel) = []
   \<and> calls (elapse 60000 (writeResolved 3 False savingPanel))
        = [GetFileTree (Some ''/repo''), ReadFile (Some ''/repo/file.ts''),
           WriteFile (Some ''/repo/file.ts'') ''x'']
   \<and> calls (elapse 800 (handleChange ''xy'' (writeResolved 3 False savingPanel)))
        = [GetFileTree (Some ''/repo''), ReadFile (Some ''/repo/file.ts''),
           WriteFile (Some ''/repo/file.ts'') ''x'', WriteFile (Some ''/repo/file.ts'') ''xy'']"
proof -
  have c: "consistent savingPanel" by (simp add: savingPanel_eq consistent_def)
  have i: "map_of (pending savingPanel) 3 = Some (WriteFile (Some ''/repo/file.ts'') ''x'')"
    by (simp add: savingPanel_eq)
  have f: "fileContent savingPanel = ''x''" "savedContent savingPanel = ''file content''"
    "timers savingPanel = []" "openFilePath savingPanel = Some ''/repo/file.ts''"
    "calls savingPanel = [GetFileTree (Some ''/repo''), ReadFile (Some ''/repo/file.ts''),
           WriteFile (Some ''/repo/file.ts'') ''x'']"
    by (simp_all add: savingPanel_eq)
  note th = write_failure_keeps_buffer[OF c i]
  from th f(3) have 1: "\<forall>d. calls (elapse d (writeResolved 3 False savingPanel)) = calls savingPanel"
    by simp
  from th f(4) have 2: "calls (elapse 800 (handleChange ''xy'' (writeResolved 3 False savingPanel)))
      = calls savingPanel @ [WriteFile (Some ''/repo/file.ts'') ''xy'']"
    by simp
  from th c i 1 2 show ?thesis by (simp add: f)
qed

subsection \<open>Loading a file\<close>

lemma openFileChanged_open:
  assumes "p \<noteq> []" "openFilePath s \<noteq> Some p"
  shows "\<exists>rest. pending (openFileChanged (Some p) s) = pending s @ [(nextRequest s, ReadFile (Some p))] @ rest"
    and "openFilePath (openFileChanged (Some p) s) = Some p"
    and "saveStatus (openFileChanged (Some p) s) = None"
    and "fileLoading (openFileChanged (Some p) s)"
    and "\<not> diffMode (openFileChanged (Some p) s)"
  using assms
  by (auto simp: openFileChanged_def setDiffMode_def fetchDiffEffect_def loadFileEffect_def call_def)

lemma readResolved_ok:
  assumes "map_of (pending s) i = Some (ReadFile q)"
  shows "readResolved i (Some content) s =
           (settle i s)\<lparr>fileContent := content, savedContent := content, fileLoading := False\<rparr>"
    and "readResolved i None s =
           (settle i s)\<lparr>fileContent := ''// Error loading file'', savedContent := [], fileLoading := False\<rparr>"
  using assms by (simp_all add: readResolved_def)









text \<open>
  C5. When the request for the selected file's content fails, the buffer is the text
  \<^verbatim>\<open>// Error loading file\<close> and the saved content is empty, so the panel is dirty; the loading
  flag is cleared, the panel stays consistent, and unless a diff is still loading the
  editor shows the buffer. Whenever a read fails, in any state, the buffer and the saved
  content are those two texts, the loading flag is cleared, and the panel is dirty iff a
  file is open.
\<close>

theorem file_load_failure:
  fixes s :: Panel and p :: string
  assumes c: "consistent s" and p: "p \<noteq> []" and n: "openFilePath s \<noteq> Some p"
  defines "s1 \<equiv> handleFileSelect p s"
  defines "s2 \<equiv> readResolved (nextRequest s) None s1"
  shows "map_of (pending s1) (nextRequest s) = Some (ReadFile (Some p))
       \<and> fileContent s2 = ''// Error loading file'' \<and> savedContent s2 = []
       \<and> isDirty s2 \<and> \<not> fileLoading s2
       \<and> consistent s2
       \<and> (\<not> diffLoading s1 \<longrightarrow> editorArea s2 = CodeMirror ''// Error loading file'')
       \<and> (\<forall>s' i q. map_of (pending s') i = Some (ReadFile q) \<longrightarrow>
             fileContent (readResolved i None s') = ''// Error loading file''
           \<and> savedContent (readResolved i None s') = []
           \<and> \<not> fileLoading (readResolved i None s')
           \<and> isDirty (readResolved i None s') = (openFilePath s' \<noteq> None))"
proof -
  have s1: "s1 = openFileChanged (Some p) s" by (simp add: s1_def handleFileSelect_def)
  from openFileChanged_open(1)[OF p n] obtain rest
    where "pending s1 = pending s @ [(nextRequest s, ReadFile (Some p))] @ rest"
    unfolding s1 by blast
  with fresh_lookup[OF c, of "ReadFile (Some p)" rest]
  have look: "map_of (pending s1) (nextRequest s) = Some (ReadFile (Some p))" by simp
  have a: "openFilePath s1 = Some p" "\<not> diffMode s1"
    unfolding s1 by (rule openFileChanged_open[OF p n])+
  have s2: "s2 = (settle (nextRequest s) s1)\<lparr>fileContent := ''// Error loading file'',
                    savedContent := [], fileLoading := False\<rparr>"
    unfolding s2_def by (rule readResolved_ok(2)[OF look])
  have b: "fileContent s2 = ''// Error loading file''" "savedContent s2 = []" "isDirty s2"
     "\<not> fileLoading s2"
    by (simp_all add: s2 settle_def isDirty_def a)
  have "consistent s1" unfolding s1 using c by (rule consistent_openFileChanged)
  then have k: "consistent s2" unfolding s2_def by (rule consistent_resolved)
  have v: "\<not> diffLoading s1 \<longrightarrow> editorArea s2 = CodeMirror ''// Error loading file''"
    using p by (simp add: s2 settle_def editorArea_def a)
  have g: "\<forall>s' i q. map_of (pending s') i = Some (ReadFile q) \<longrightarrow>
             fileContent (readResolved i None s') = ''// Error loading file''
           \<and> savedContent (readResolved i None s') = []
           \<and> \<not> fileLoading (readResolved i None s')
           \<and> isDirty (readResolved i None s') = (openFilePath s' \<noteq> None)"
    by (simp add: readResolved_ok(2) isDirty_def settle_def)
  from look b k v g show ?thesis by blast
qed

theorem file_load_failure_witness:
  "consistent (initial (Some ''/repo'') None []) \<and> ''/repo/file.ts'' \<noteq> []
   \<and> openFilePath (initial (Some ''/repo'') None []) \<noteq> Some ''/repo/file.ts''
   \<and> fileContent (readResolved 1 None
         (handleFileSelect ''/repo/file.ts'' (initial (Some ''/repo'') None []))) = ''// Error loading file''
   \<and> savedContent (readResolved 1 None
         (handleFileSelect ''/repo/file.ts'' (initial (Some ''/repo'') None []))) = []
   \<and> isDirty (readResolved 1 None
         (handleFileSelect ''/repo/file.ts'' (initial (Some ''/repo'') None [])))
   \<and> \<not> fileLoading (readResolved 1 None
         (handleFileSelect ''/repo/file.ts'' (initial (Some ''/repo'') None [])))
   \<and> editorArea (readResolved 1 None
         (handleFileSelect ''/repo/file.ts'' (initial (Some ''/repo'') None [])))
       = CodeMirror ''// Error loading file''"
proof -
  have n: "nextRequest (initial (Some ''/repo'') None []) = 1" by (simp add: initial_def)
  have o: "openFilePath (initial (Some ''/repo'') None []) \<noteq> Some ''/repo/file.ts''"
    by (simp add: initial_def)
  have ne: "''/repo/file.ts'' \<noteq> []" by simp
  have d: "\<not> diffLoading (handleFileSelect ''/repo/file.ts'' (initial (Some ''/repo'') None []))"
    by (simp add: initial_def panel_defs)
  from file_load_failure[OF consistent_initial ne o, unfolded n] d
  show ?thesis using consistent_initial o by blast
qed

subsection \<open>The diff mode\<close>

text \<open>
  C8. Whenever the open file changes, from any value to any other, also away from a file
  shown in the diff view and also to no file, the diff mode is off afterwards: the editor
  area does not show a diff.
\<close>

theorem diff_mode_reset:
  assumes "p \<noteq> openFilePath s"
  shows "\<not> diffMode (openFileChanged p s)
       \<and> openFilePath (openFileChanged p s) = p
       \<and> (\<forall>q. p = Some q \<longrightarrow> \<not> diffMode (handleFileSelect q s))
       \<and> (\<forall>d. editorArea (openFileChanged p s) \<noteq> ShowDiff d)"
  using assms
  by (auto simp: handleFileSelect_def openFileChanged_def setDiffMode_def fetchDiffEffect_def
        loadFileEffect_def call_def editorArea_def)

theorem diff_mode_reset_witness:
  "diffMode diffPanel
   \<and> Some ''/repo/src/app.ts'' \<noteq> openFilePath diffPanel
   \<and> \<not> diffMode (openFileChanged (Some ''/repo/src/app.ts'') diffPanel)
   \<and> \<not> diffMode (handleFileSelect ''/repo/src/app.ts'' diffPanel)
   \<and> None \<noteq> openFilePath diffPanel
   \<and> \<not> diffMode (openFileChanged None diffPanel)"
  using diff_mode_reset[of "Some ''/repo/src/app.ts''" diffPanel]
        diff_mode_reset[of None diffPanel]
  by (simp add: diffPanel_eq)

lemma diffResolved_ok:
  assumes "map_of (pending s) i = Some (GetFileDiff p)"
  shows "diffResolved i (Some d) s = (settle i s)\<lparr>diffContent := d, diffLoading := False\<rparr>"
    and "diffResolved i None s = (settle i s)\<lparr>diffContent := [], diffLoading := False\<rparr>"
  using assms by (simp_all add: diffResolved_def)

text \<open>
  C7. The empty diff text is tested before any splitting (which would give one empty
  line): it renders the \<^verbatim>\<open>No changes\<close> indicator, no other text does, and no text renders
  an empty list of rows. A diff request that fails sets the diff content to the empty
  text and clears the loading flag, which leaves the panel in the very state that a
  successful request returning the empty text leaves it in; with the diff view showing,
  both render \<^verbatim>\<open>No changes\<close>.
\<close>

theorem empty_diff_no_changes:
  "DiffView [] = NoChanges
   \<and> split_lines [] = [[]]
   \<and> (\<forall>d. DiffView d \<noteq> DiffLines [])
   \<and> (\<forall>d. (DiffView d = NoChanges) = (d = []))
   \<and> (\<forall>s i p. map_of (pending s) i = Some (GetFileDiff p) \<longrightarrow>
         diffContent (diffResolved i None s) = []
       \<and> \<not> diffLoading (diffResolved i None s)
       \<and> diffResolved i None s = diffResolved i (Some []) s
       \<and> editorArea (diffResolved i None s) = editorArea (diffResolved i (Some []) s)
       \<and> (diffMode s \<and> truthy (openFilePath s) \<and> has (changedFiles s) (openFilePath s)
            \<and> \<not> fileLoading s \<longrightarrow> editorArea (diffResolved i None s) = ShowDiff NoChanges))"
proof -
  have 1: "DiffView [] = NoChanges" by (simp add: DiffView_def)
  have 2: "split_lines [] = [[]]" by simp
  have 3: "\<forall>d. DiffView d \<noteq> DiffLines []" by (simp add: DiffView_def split_lines_ne)
  have 4: "\<forall>d. (DiffView d = NoChanges) = (d = [])" by (simp add: DiffView_def)
  have 5: "diffContent (diffResolved i None s) = []
       \<and> \<not> diffLoading (diffResolved i None s)
       \<and> diffResolved i None s = diffResolved i (Some []) s
       \<and> editorArea (diffResolved i None s) = editorArea (diffResolved i (Some []) s)
       \<and> (diffMode s \<and> truthy (openFilePath s) \<and> has (changedFiles s) (openFilePath s)
            \<and> \<not> fileLoading s \<longrightarrow> editorArea (diffResolved i None s) = ShowDiff NoChanges)"
    if "map_of (pending s) i = Some (GetFileDiff p)" for s i p
    by (simp add: diffResolved_ok[OF that] settle_def editorArea_def DiffView_def)
  from 1 2 3 4 5 show ?thesis by blast
qed

theorem empty_diff_no_changes_witness:
  "map_of (pending diffPanel) 3 = Some (GetFileDiff (Some ''/repo/file.ts''))
   \<and> diffMode diffPanel \<and> truthy (openFilePath diffPanel)
   \<and> has (changedFiles diffPanel) (openFilePath diffPanel) \<and> \<not> fileLoading diffPanel
   \<and> diffContent (diffResolved 3 None diffPanel) = []
   \<and> editorArea (diffResolved 3 None diffPanel) = ShowDiff NoChanges
   \<and> editorArea (diffResolved 3 (Some []) diffPanel) = ShowDiff NoChanges
   \<and> editorArea (diffResolved 3 (Some ''+added'') diffPanel)
       = ShowDiff (DiffLines [\<lparr>category = Addition, text_of = ''+added''\<rparr>])"
proof -
  have a: "map_of (pending diffPanel) 3 = Some (GetFileDiff (Some ''/repo/file.ts''))"
    "diffMode diffPanel" "truthy (openFilePath diffPanel)"
    "has (changedFiles diffPanel) (openFilePath diffPanel)" "\<not> fileLoading diffPanel"
    by (simp_all add: diffPanel_eq has_def)
  have b: "editorArea (diffResolved 3 (Some ''+added'') diffPanel)
       = ShowDiff (DiffLines [\<lparr>category = Addition, text_of = ''+added''\<rparr>])"
    by (simp add: diffPanel_eq diffResolved_def settle_def editorArea_def has_def DiffView_def
          renderLine_def lineCategory_def startsWith_def LF_def)
  from empty_diff_no_changes a
  have "diffContent (diffResolved 3 None diffPanel) = []
      \<and> editorArea (diffResolved 3 None diffPanel) = editorArea (diffResolved 3 (Some []) diffPanel)
      \<and> editorArea (diffResolved 3 None diffPanel) = ShowDiff NoChanges"
    by blast
  with a b show ?thesis by metis
qed

subsection \<open>Editing with no file open\<close>

text \<open>
  C10. When the buffer is edited while the open path is null (or empty), the buffer and
  the status dirty are set and the timer that \<^verbatim>\<open>saveTimerRef\<close> holds is cleared, but no timer
  is armed: no save timer is pending afterwards and, however much time passes, no call is
  made. In every run of a consistent panel, and so in every run from the first render,
  every \<^verbatim>\<open>writeFile\<close> call is for a truthy path: none is made with a null path.
\<close>

theorem edit_without_open_file:
  assumes c: "consistent s" and o: "\<not> truthy (openFilePath s)"
  shows "fileContent (handleChange v s) = v \<and> saveStatus (handleChange v s) = Some Dirty
       \<and> timers (handleChange v s) = filter (\<lambda>t. Some (handle t) \<noteq> saveTimerRef s) (timers s)
       \<and> list_all (\<lambda>t. \<not> isSave (callback t)) (timers (handleChange v s))
       \<and> calls (handleChange v s) = calls s
       \<and> (\<forall>d. calls (elapse d (handleChange v s)) = calls s)
       \<and> (\<forall>evs. list_all savesTruthy (calls (run evs s)))
       \<and> (\<forall>evs w. WriteFile None w \<notin> set (calls (run evs s)))
       \<and> (\<forall>c0 p0 files evs w. WriteFile None w \<notin> set (calls (run evs (mount c0 p0 files))))"
proof -
  note h = handleChange_closed[OF o, of v]
  have 1: "list_all (\<lambda>t. \<not> isSave (callback t)) (timers (handleChange v s))"
    unfolding h(1) by (rule unreferenced_nosave[OF c])
  have 2: "\<forall>d. calls (elapse d (handleChange v s)) = calls s"
    using calls_elapse_nosave[OF 1] by (simp only: h(3)) simp
  have inv: "list_all savesTruthy (calls (run evs x))" if "consistent x" for evs x
    using consistent_run[OF that, of evs] by (simp add: consistent_def)
  have nonull: "WriteFile None w \<notin> set (calls (run evs x))" if "consistent x" for evs x w
  proof
    assume "WriteFile None w \<in> set (calls (run evs x))"
    with inv[OF that, of evs] have "savesTruthy (WriteFile None w)" by (auto simp: list_all_iff)
    then show False by simp
  qed
  from h(4) h(5) h(1) 1 h(3) 2 inv[OF c] nonull[OF c] nonull[OF consistent_mount]
  show ?thesis by blast
qed

theorem edit_without_open_file_witness:
  "consistent (mount (Some ''/repo'') None []) \<and> \<not> truthy (openFilePath (mount (Some ''/repo'') None []))
   \<and> saveStatus (handleChange ''x'' (mount (Some ''/repo'') None [])) = Some Dirty
   \<and> timers (handleChange ''x'' (mount (Some ''/repo'') None [])) = []
   \<and> calls (elapse 60000 (handleChange ''x'' (mount (Some ''/repo'') None [])))
       = [GetFileTree (Some ''/repo'')]
   \<and> calls (run [Edit ''x'', Elapse 1000, SelectFile ''/repo/a.ts'', ReadResolved 2 (Some ''c''),
                  Edit ''cy'', Elapse 800] (mount (Some ''/repo'') None []))
       = [GetFileTree (Some ''/repo''), ReadFile (Some ''/repo/a.ts''),
          WriteFile (Some ''/repo/a.ts'') ''cy'']"
proof -
  let ?m = "mount (Some ''/repo'') None []"
  have o: "\<not> truthy (openFilePath ?m)" by (simp add: panel_defs)
  have k: "calls ?m = [GetFileTree (Some ''/repo'')]" "timers ?m = []" by (simp_all add: panel_defs)
  have r: "calls (run [Edit ''x'', Elapse 1000, SelectFile ''/repo/a.ts'', ReadResolved 2 (Some ''c''),
                  Edit ''cy'', Elapse 800] ?m)
       = [GetFileTree (Some ''/repo''), ReadFile (Some ''/repo/a.ts''),
          WriteFile (Some ''/repo/a.ts'') ''cy'']"
    by (simp add: run_def panel_defs)
  note th = edit_without_open_file[OF consistent_mount o, of "''x''"]
  from th have 1: "\<forall>d. calls (elapse d (handleChange ''x'' ?m)) = calls ?m" by blast
  from th have 2: "timers (handleChange ''x'' ?m) = filter (\<lambda>t. Some (handle t) \<noteq> saveTimerRef ?m) (timers ?m)"
    by blast
  from th have 3: "saveStatus (handleChange ''x'' ?m) = Some Dirty" by blast
  from consistent_mount o 1 2 3 r show ?thesis by (simp add: k)
qed

end
